theory Spec2Isabelle
  imports Main
begin

section \<open>Data model of task.go\<close>

text \<open>
  A shallow embedding of the task runner of \<^verbatim>\<open>task.go\<close>. Go strings are
  \<^typ>\<open>string\<close>, \<^verbatim>\<open>map[string]string\<close> is a partial function, the struct
  \<^verbatim>\<open>Task\<close> is a record with the fields of the source. A \<^verbatim>\<open>time.Time\<close>
  is the number of nanoseconds since Go's zero time instant (January 1, year 1, UTC);
  instants before it are negative.
\<close>

type_synonym vars = "string \<rightharpoonup> string"
type_synonym env = "string \<rightharpoonup> string"
type_synonym time = int

record Task =
  Cmds :: "string list"
  Deps :: "string list"
  Sources :: "string list"
  Generates :: "string list"
  Dir :: string
  Variables :: "string \<rightharpoonup> string"
  Set :: string

text \<open>
  A Go \<^verbatim>\<open>error\<close> value carried inside a \<^verbatim>\<open>taskRunError\<close>: either made by
  \<^verbatim>\<open>fmt.Errorf\<close> in this file, or handed over by a callee outside it (process
  spawning, variable resolution, globbing), which is identified by its message.
\<close>

datatype cause = Errorf string | Foreign string

datatype error = taskNotFoundError string | taskRunError string cause

text \<open>An \<^verbatim>\<open>exec.Cmd\<close> as \<^verbatim>\<open>exec.Command\<close> builds it and \<^verbatim>\<open>runCommand\<close> completes it.\<close>

record Cmd =
  Cmd_Path :: string
  Cmd_Args :: "string list"
  Cmd_Dir :: string

text \<open>
  The effects of a run, in program order: \<^verbatim>\<open>runTasks[name] = true\<close>, a call of
  \<^verbatim>\<open>handleVariables\<close> for a task, \<^verbatim>\<open>log.Printf\<close>, \<^verbatim>\<open>cmd.Output()\<close>,
  \<^verbatim>\<open>fmt.Println\<close> and a call of \<^verbatim>\<open>os.Setenv\<close> (whether it succeeds or not).
\<close>

datatype event =
    Visit string
  | HandleVariables string
  | Printf string
  | Output Cmd
  | Println string
  | Setenv string string

text \<open>
  The mutable state of the process: the package variable \<^verbatim>\<open>runTasks\<close>, the process
  environment, the world outside the process (file system, clock) and the history of
  effects.
\<close>

record 'w state =
  runTasks :: "string \<rightharpoonup> bool"
  environ :: env
  world :: 'w
  trace :: "event list"

text \<open>
  What the run is given: the package variables \<^verbatim>\<open>ShExists\<close>, \<^verbatim>\<open>ShPath\<close> and
  \<^verbatim>\<open>Tasks\<close>, which \<^verbatim>\<open>RunTask\<close> only reads, and the callees of \<^verbatim>\<open>RunTask\<close> whose
  code is not in \<^verbatim>\<open>task.go\<close>. \<^verbatim>\<open>Tasks\<close> is a finite map, kept as an association
  list read by \<^const>\<open>map_of\<close>; its entries are non-nil task pointers.
  \<^verbatim>\<open>cmdOutput\<close> is \<^verbatim>\<open>(*exec.Cmd).Output\<close>: it sees the environment and the world,
  may change the world, and returns the captured standard output or an error.
\<close>

record 'w sys =
  ShExists :: bool
  ShPath :: string
  Tasks :: "(string \<times> Task) list"
  handleVariables :: "Task \<Rightarrow> env \<Rightarrow> 'w \<Rightarrow> cause + vars"
  ReplaceVariables :: "string \<Rightarrow> vars \<Rightarrow> env \<Rightarrow> string"
  getPatternsMaxTime :: "string list \<Rightarrow> 'w \<Rightarrow> cause + time"
  getPatternsMinTime :: "string list \<Rightarrow> 'w \<Rightarrow> cause + time"
  cmdOutput :: "Cmd \<Rightarrow> env \<Rightarrow> 'w \<Rightarrow> (cause + string) \<times> 'w"

section \<open>isTaskUpToDate\<close>

definition IsZero :: "time \<Rightarrow> bool" where
  "IsZero t = (t = 0)"

definition After :: "time \<Rightarrow> time \<Rightarrow> bool" where
  "After t u = (u < t)"

definition isTaskUpToDate :: "'w sys \<Rightarrow> 'w \<Rightarrow> Task \<Rightarrow> bool" where
  "isTaskUpToDate sy w t =
     (if length (Sources t) = 0 \<or> length (Generates t) = 0 then False
      else
        (case getPatternsMaxTime sy (Sources t) w of
           Inl err \<Rightarrow> False
         | Inr sourcesMaxTime \<Rightarrow>
             if IsZero sourcesMaxTime then False
             else
               (case getPatternsMinTime sy (Generates t) w of
                  Inl err \<Rightarrow> False
                | Inr generatesMinTime \<Rightarrow>
                    if IsZero generatesMinTime then False
                    else After generatesMinTime sourcesMaxTime)))"

section \<open>runCommand\<close>

definition Command :: "string \<Rightarrow> string list \<Rightarrow> Cmd" where
  "Command name arg = \<lparr>Cmd_Path = name, Cmd_Args = name # arg, Cmd_Dir = []\<rparr>"

text \<open>
  The \<^verbatim>\<open>exec.Cmd\<close> that \<^verbatim>\<open>runCommand\<close> sets up (lines 159 to 166). The standard
  error of the process goes to that of the runner (line 167) and is not part of the result.
\<close>

definition buildCmd :: "'w sys \<Rightarrow> string \<Rightarrow> string \<Rightarrow> Cmd" where
  "buildCmd sy c path =
     (let cmd = (if ShExists sy then Command (ShPath sy) [''-c'', c]
                 else Command ''cmd'' [''/C'', c])
      in if path \<noteq> [] then cmd\<lparr>Cmd_Dir := path\<rparr> else cmd)"

definition runCommand ::
  "'w sys \<Rightarrow> string \<Rightarrow> string \<Rightarrow> 'w state \<Rightarrow> (cause + string) \<times> 'w state" where
  "runCommand sy c path s =
     (let cmd = buildCmd sy c path
      in case cmdOutput sy cmd (environ s) (world s) of
           (Inl err, w) \<Rightarrow> (Inl err, s\<lparr>world := w, trace := trace s @ [Output cmd]\<rparr>)
         | (Inr b, w) \<Rightarrow> (Inr b, s\<lparr>world := w, trace := trace s @ [Output cmd]\<rparr>))"

section \<open>RunTask\<close>

definition cyclic :: cause where
  "cyclic = Errorf ''Cyclic dependency detected''"

definition upToDateMessage :: "string \<Rightarrow> string" where
  "upToDateMessage name = ''Task '' @ [CHR 0x22] @ name @ [CHR 0x22] @ '' is up to date''"

definition mark :: "string \<Rightarrow> 'w state \<Rightarrow> 'w state" where
  "mark name s = s\<lparr>runTasks := (runTasks s)(name \<mapsto> True), trace := trace s @ [Visit name]\<rparr>"

definition emit :: "event \<Rightarrow> 'w state \<Rightarrow> 'w state" where
  "emit e s = s\<lparr>trace := trace s @ [e]\<rparr>"

text \<open>
  \<^verbatim>\<open>os.Setenv(key, value)\<close> sets the variable unless the key is empty or contains
  \<^verbatim>\<open>=\<close> or a NUL byte, or the value contains a NUL byte; then it returns an error and
  leaves the environment as it is. Line 129 discards the error.
\<close>

definition accepted :: "string \<Rightarrow> string \<Rightarrow> bool" where
  "accepted k v \<longleftrightarrow>
     k \<noteq> [] \<and> CHR ''='' \<notin> set k \<and> CHR 0x00 \<notin> set k \<and> CHR 0x00 \<notin> set v"

definition export :: "string \<Rightarrow> string \<Rightarrow> 'w state \<Rightarrow> 'w state" where
  "export k v s =
     (if accepted k v
      then s\<lparr>environ := (environ s)(k \<mapsto> v), trace := trace s @ [Setenv k v]\<rparr>
      else s\<lparr>trace := trace s @ [Setenv k v]\<rparr>)"

text \<open>The loop over \<^verbatim>\<open>t.Cmds\<close> (lines 114 to 131), from the command \<open>c\<close> on.\<close>

fun runCmds ::
  "'w sys \<Rightarrow> string \<Rightarrow> Task \<Rightarrow> 'w state \<Rightarrow> string list \<Rightarrow> error option \<times> 'w state" where
  "runCmds sy name t s [] = (None, s)"
| "runCmds sy name t s (c # cs) =
     (let s0 = emit (HandleVariables name) s in
      case handleVariables sy t (environ s0) (world s0) of
        Inl err \<Rightarrow> (Some (taskRunError name err), s0)
      | Inr vars \<Rightarrow>
          (case runCommand sy (ReplaceVariables sy c vars (environ s0))
                  (ReplaceVariables sy (Dir t) vars (environ s0)) s0 of
             (Inl err, s1) \<Rightarrow> (Some (taskRunError name err), s1)
           | (Inr output, s1) \<Rightarrow>
               (let s2 = emit (Println output) s1;
                    s3 = (if Set t \<noteq> [] then export (Set t) output s2 else s2)
                in runCmds sy name t s3 cs)))"

text \<open>
  \<^verbatim>\<open>RunTask\<close> (lines 90 to 133) and its loop over \<^verbatim>\<open>t.Deps\<close> (lines 109 to 113),
  which calls \<^verbatim>\<open>RunTask\<close> again on the state the earlier dependencies left.
\<close>

function RunTask :: "'w sys \<Rightarrow> 'w state \<Rightarrow> string \<Rightarrow> error option \<times> 'w state"
  and runDeps :: "'w sys \<Rightarrow> vars \<Rightarrow> 'w state \<Rightarrow> string list \<Rightarrow> error option \<times> 'w state"
where
  "RunTask sy s name =
     (if runTasks s name \<noteq> None then (Some (taskRunError name cyclic), s)
      else
        (let s0 = mark name s in
         case map_of (Tasks sy) name of
           None \<Rightarrow> (Some (taskNotFoundError name), s0)
         | Some t \<Rightarrow>
             if isTaskUpToDate sy (world s0) t
             then (None, emit (Printf (upToDateMessage name)) s0)
             else
               (let s1 = emit (HandleVariables name) s0 in
                case handleVariables sy t (environ s1) (world s1) of
                  Inl err \<Rightarrow> (Some (taskRunError name err), s1)
                | Inr vars \<Rightarrow>
                    (case runDeps sy vars s1 (Deps t) of
                       (Some err, s2) \<Rightarrow> (Some err, s2)
                     | (None, s2) \<Rightarrow> runCmds sy name t s2 (Cmds t)))))"
| "runDeps sy vars s [] = (None, s)"
| "runDeps sy vars s (d # ds) =
     (case RunTask sy s (ReplaceVariables sy d vars (environ s)) of
        (Some err, s1) \<Rightarrow> (Some err, s1)
      | (None, s1) \<Rightarrow> runDeps sy vars s1 ds)"
  by pat_completeness auto

text \<open>
  Every call either returns at once or marks a name of the finite registry that was not
  marked before, and no call unmarks a name: the recursion terminates.
\<close>

lemma emit_simps [simp]:
  "runTasks (emit e s) = runTasks s" "environ (emit e s) = environ s"
  "world (emit e s) = world s" "trace (emit e s) = trace s @ [e]"
  by (simp_all add: emit_def)

lemma mark_simps [simp]:
  "runTasks (mark n s) = (runTasks s)(n \<mapsto> True)" "environ (mark n s) = environ s"
  "world (mark n s) = world s" "trace (mark n s) = trace s @ [Visit n]"
  by (simp_all add: mark_def)

lemma export_simps [simp]:
  "runTasks (export k v s) = runTasks s"
  "environ (export k v s) = (if accepted k v then (environ s)(k \<mapsto> v) else environ s)"
  "world (export k v s) = world s" "trace (export k v s) = trace s @ [Setenv k v]"
  by (simp_all add: export_def)

lemma runCommand_runTasks: "runCommand sy c p s = (r, s1) \<Longrightarrow> runTasks s1 = runTasks s"
  by (auto simp: runCommand_def Let_def split: prod.splits sum.splits)

lemma runCmds_runTasks: "runCmds sy name t s cs = (r, s') \<Longrightarrow> runTasks s' = runTasks s"
proof (induction cs arbitrary: s)
  case Nil
  then show ?case by simp
next
  case (Cons c cs)
  then show ?case
    by (auto simp: Let_def split: sum.splits prod.splits if_splits
             dest!: runCommand_runTasks)
qed

definition unvisited :: "'w sys \<Rightarrow> 'w state \<Rightarrow> nat" where
  "unvisited sy s = card (fst ` set (Tasks sy) - dom (runTasks s))"

lemma RunTask_runDeps_grows_partial:
  "RunTask_runDeps_dom (Inl (sy, s, name)) \<Longrightarrow> RunTask sy s name = (r, s') \<Longrightarrow> dom (runTasks s) \<subseteq> dom (runTasks s')"
  "RunTask_runDeps_dom (Inr (sy, vs, s, ds)) \<Longrightarrow> runDeps sy vs s ds = (r, s') \<Longrightarrow> dom (runTasks s) \<subseteq> dom (runTasks s')"
proof (induction sy s name and sy vs s ds arbitrary: r s' and r s' rule: RunTask_runDeps.pinduct)
  case (1 sy s name)
  show ?case
  proof (cases "runTasks s name \<noteq> None")
    case True
    with "1.prems" show ?thesis by (simp add: RunTask.psimps [OF "1.hyps"])
  next
    case unv: False
    show ?thesis
    proof (cases "map_of (Tasks sy) name")
      case None
      with unv "1.prems" show ?thesis
        by (auto simp: RunTask.psimps [OF "1.hyps"] Let_def)
    next
      case (Some t)
      show ?thesis
      proof (cases "isTaskUpToDate sy (world s) t")
        case True
        with unv Some "1.prems" show ?thesis
          by (auto simp: RunTask.psimps [OF "1.hyps"] Let_def)
      next
        case stale: False
        show ?thesis
        proof (cases "handleVariables sy t (environ s) (world s)")
          case (Inl e)
          with unv Some stale "1.prems" show ?thesis
            by (auto simp: RunTask.psimps [OF "1.hyps"] Let_def)
        next
          case (Inr vs)
          obtain r2 s2 where deps:
            "runDeps sy vs (emit (HandleVariables name) (mark name s)) (Deps t) = (r2, s2)"
            by (cases "runDeps sy vs (emit (HandleVariables name) (mark name s)) (Deps t)")
          have st: "\<not> isTaskUpToDate sy (world (mark name s)) t"
            using stale by simp
          have hv: "handleVariables sy t (environ (emit (HandleVariables name) (mark name s)))
                      (world (emit (HandleVariables name) (mark name s))) = Inr vs"
            using Inr by simp
          have "dom (runTasks (emit (HandleVariables name) (mark name s))) \<subseteq> dom (runTasks s2)"
            using "1.IH" [OF unv refl Some st refl hv deps] .
          then have a: "dom (runTasks s) \<subseteq> dom (runTasks s2)" by auto
          show ?thesis
          proof (cases r2)
            case None
            with unv Some stale Inr deps "1.prems"
            have "runCmds sy name t s2 (Cmds t) = (r, s')"
              by (simp add: RunTask.psimps [OF "1.hyps"] Let_def)
            from runCmds_runTasks [OF this] a show ?thesis by simp
          next
            case (Some e)
            with unv \<open>map_of (Tasks sy) name = Some t\<close> stale Inr deps "1.prems"
            have "s' = s2"
              by (simp add: RunTask.psimps [OF "1.hyps"] Let_def)
            with a show ?thesis by simp
          qed
        qed
      qed
    qed
  qed
next
  case (2 sy vars s)
  then show ?case by (simp add: runDeps.psimps)
next
  case (3 sy vars s d ds)
  obtain r1 s1 where first: "RunTask sy s (ReplaceVariables sy d vars (environ s)) = (r1, s1)"
    by (cases "RunTask sy s (ReplaceVariables sy d vars (environ s))")
  have a: "dom (runTasks s) \<subseteq> dom (runTasks s1)"
    using "3.IH"(1) [OF first] .
  show ?case
  proof (cases r1)
    case None
    with first "3.prems" have rest: "runDeps sy vars s1 ds = (r, s')"
      by (simp add: runDeps.psimps(2) [OF "3.hyps"])
    from "3.IH"(2) [OF first [symmetric] None rest] a show ?thesis by simp
  next
    case (Some e)
    with first "3.prems" have "s' = s1"
      by (simp add: runDeps.psimps(2) [OF "3.hyps"])
    with a show ?thesis by simp
  qed
qed

lemma unvisited_mono:
  "dom (runTasks s) \<subseteq> dom (runTasks s') \<Longrightarrow> unvisited sy s' \<le> unvisited sy s"
  unfolding unvisited_def by (intro card_mono) auto

lemma unvisited_mark:
  assumes "runTasks s name = None" and "map_of (Tasks sy) name = Some t"
  shows "unvisited sy (emit e (mark name s)) < unvisited sy s"
proof -
  have in_tasks: "name \<in> fst ` set (Tasks sy)"
    using assms(2) by (metis map_of_SomeD fst_conv image_eqI)
  have "fst ` set (Tasks sy) - dom (runTasks (emit e (mark name s)))
        \<subset> fst ` set (Tasks sy) - dom (runTasks s)"
    using assms(1) in_tasks by auto
  then show ?thesis
    unfolding unvisited_def by (intro psubset_card_mono) auto
qed

termination RunTask
proof (relation "(\<lambda>x. case x of Inl (sy, s, name) \<Rightarrow> unvisited sy s
                                | Inr (sy, vs, s, ds) \<Rightarrow> unvisited sy s)
                 <*mlex*> measure (\<lambda>x. case x of Inl _ \<Rightarrow> 0
                                | Inr (sy, vs, s, ds) \<Rightarrow> Suc (length ds))", goal_cases)
  case 1
  show ?case by (simp add: wf_mlex)
next
  case 2
  then show ?case
    by (auto intro!: mlex_less unvisited_mark)
next
  case 3
  then show ?case by (auto intro!: mlex_leq)
next
  case (4 sy vars s d ds r1 s1)
  have "dom (runTasks s) \<subseteq> dom (runTasks s1)"
    using RunTask_runDeps_grows_partial(1) [OF 4(3) 4(1) [symmetric]] .
  then have "unvisited sy s1 \<le> unvisited sy s"
    by (rule unvisited_mono)
  then show ?case
    by (auto intro!: mlex_leq)
qed

declare RunTask.simps [simp del]

text \<open>
  \<^verbatim>\<open>Run\<close> (lines 82 to 86): one \<^verbatim>\<open>RunTask\<close> per argument, on the same package
  state; \<^verbatim>\<open>log.Fatal\<close> ends the process at the first error.
\<close>

fun Run_loop :: "'w sys \<Rightarrow> 'w state \<Rightarrow> string list \<Rightarrow> error option \<times> 'w state" where
  "Run_loop sy s [] = (None, s)"
| "Run_loop sy s (a # args) =
     (case RunTask sy s a of
        (Some err, s1) \<Rightarrow> (Some err, s1)
      | (None, s1) \<Rightarrow> Run_loop sy s1 args)"

text \<open>
  A client of the package that calls \<^verbatim>\<open>RunTask\<close> several times and goes on after an
  error: the state after the calls, and the result of each.
\<close>

fun calls :: "'w sys \<Rightarrow> 'w state \<Rightarrow> string list \<Rightarrow> error option list \<times> 'w state" where
  "calls sy s [] = ([], s)"
| "calls sy s (a # args) =
     (case RunTask sy s a of
        (r, s1) \<Rightarrow> (case calls sy s1 args of (rs, s2) \<Rightarrow> (r # rs, s2)))"

section \<open>The callees that are not in task.go\<close>

text \<open>
  Modelled from the spec: \<^verbatim>\<open>ReplaceVariables\<close> is called by \<^verbatim>\<open>RunTask\<close> and defined
  in another file of the package. The spec (4.1, 9): every placeholder \<^verbatim>\<open>{{VAR}}\<close> is
  replaced by the value of \<^verbatim>\<open>VAR\<close>, in a single pass from left to right, with no
  re-expansion of the values; an unresolved placeholder is left verbatim. The name of a
  placeholder is the text between \<^verbatim>\<open>{{\<close> and the next \<^verbatim>\<open>}}\<close>. The second argument
  of \<open>scan\<close> is the name read so far inside a placeholder, \<open>None\<close> outside.
\<close>

fun scan :: "(string \<Rightarrow> string option) \<Rightarrow> string option \<Rightarrow> string \<Rightarrow> string" where
  "scan look None [] = []"
| "scan look None [a] = [a]"
| "scan look None (a # b # cs) =
     (if a = CHR ''{'' \<and> b = CHR ''{'' then scan look (Some []) cs
      else a # scan look None (b # cs))"
| "scan look (Some n) [] = ''{{'' @ n"
| "scan look (Some n) [a] = ''{{'' @ n @ [a]"
| "scan look (Some n) (a # b # cs) =
     (if a = CHR ''}'' \<and> b = CHR ''}''
      then (case look n of Some v \<Rightarrow> v | None \<Rightarrow> ''{{'' @ n @ ''}}'') @ scan look None cs
      else scan look (Some (n @ [a])) (b # cs))"

definition Substitute :: "(string \<Rightarrow> string option) \<Rightarrow> string \<Rightarrow> string" where
  "Substitute look template = scan look None template"

text \<open>
  Modelled from the spec: the lookup of a name at substitution time (4.1) first checks the
  task's static variables and falls back to the variables exported to the process.
\<close>

definition resolve :: "vars \<Rightarrow> env \<Rightarrow> string \<Rightarrow> string option" where
  "resolve vs e n = (case vs n of Some v \<Rightarrow> Some v | None \<Rightarrow> e n)"

definition ReplaceVariables_spec :: "string \<Rightarrow> vars \<Rightarrow> env \<Rightarrow> string" where
  "ReplaceVariables_spec initial vs e = Substitute (resolve vs e) initial"

text \<open>
  Modelled from the spec: \<^verbatim>\<open>handleVariables\<close> is a method of \<^verbatim>\<open>Task\<close> defined in
  another file of the package. The spec (4.1): the mapping is the task's static variables,
  with nothing overlaid; no failure is described.
\<close>

definition handleVariables_spec :: "Task \<Rightarrow> env \<Rightarrow> 'w \<Rightarrow> cause + vars" where
  "handleVariables_spec t e w = Inr (Variables t)"

text \<open>
  The part of the world the freshness check reads: \<^verbatim>\<open>filepath.Glob\<close> on a pattern
  (the matched paths, or an error) and the modification time of a matched file.
\<close>

record fs =
  Glob :: "string \<Rightarrow> cause + string list"
  ModTime :: "string \<Rightarrow> time"

text \<open>
  Modelled from the spec: \<^verbatim>\<open>getPatternsMaxTime\<close> and \<^verbatim>\<open>getPatternsMinTime\<close> are
  defined in another file of the package. The spec (4.2): the patterns are expanded by
  globbing into file paths, a glob error is an error of the whole, and the result is the
  maximum (minimum) modification time among the matched files. \<^verbatim>\<open>isTaskUpToDate\<close>
  reads a zero time as "nothing matched", so that is the result when no file matches.
\<close>

fun expand :: "fs \<Rightarrow> string list \<Rightarrow> cause + string list" where
  "expand w [] = Inr []"
| "expand w (p # ps) =
     (case Glob w p of
        Inl err \<Rightarrow> Inl err
      | Inr matched \<Rightarrow>
          (case expand w ps of Inl err \<Rightarrow> Inl err | Inr others \<Rightarrow> Inr (matched @ others)))"

definition modTimes :: "fs \<Rightarrow> string list \<Rightarrow> time list" where
  "modTimes w matched = map (ModTime w) matched"

definition getPatternsMaxTime_spec :: "string list \<Rightarrow> fs \<Rightarrow> cause + time" where
  "getPatternsMaxTime_spec patterns w =
     (case expand w patterns of
        Inl err \<Rightarrow> Inl err
      | Inr matched \<Rightarrow> Inr (if matched = [] then 0 else Max (set (modTimes w matched))))"

definition getPatternsMinTime_spec :: "string list \<Rightarrow> fs \<Rightarrow> cause + time" where
  "getPatternsMinTime_spec patterns w =
     (case expand w patterns of
        Inl err \<Rightarrow> Inl err
      | Inr matched \<Rightarrow> Inr (if matched = [] then 0 else Min (set (modTimes w matched))))"

text \<open>
  The freshness condition in the words of the spec (4.2, 8): both pattern lists are
  non-empty, each matches at least one file with no glob error, and the oldest matched
  output is strictly newer than the newest matched source. \<open>zeroExtreme\<close> says that the
  newest source or the oldest output carries Go's zero time.
\<close>

definition matchedTimes :: "fs \<Rightarrow> string list \<Rightarrow> time list option" where
  "matchedTimes w patterns =
     (case expand w patterns of
        Inl err \<Rightarrow> None
      | Inr matched \<Rightarrow> if matched = [] then None else Some (modTimes w matched))"

definition freshAsClaimed :: "fs \<Rightarrow> Task \<Rightarrow> bool" where
  "freshAsClaimed w t \<longleftrightarrow>
     Sources t \<noteq> [] \<and> Generates t \<noteq> [] \<and>
     (case (matchedTimes w (Sources t), matchedTimes w (Generates t)) of
        (Some sourceTimes, Some outputTimes) \<Rightarrow> Max (set sourceTimes) < Min (set outputTimes)
      | _ \<Rightarrow> False)"

definition zeroExtreme :: "fs \<Rightarrow> Task \<Rightarrow> bool" where
  "zeroExtreme w t \<longleftrightarrow>
     (case matchedTimes w (Sources t) of
        Some sourceTimes \<Rightarrow> IsZero (Max (set sourceTimes)) | None \<Rightarrow> False) \<or>
     (case matchedTimes w (Generates t) of
        Some outputTimes \<Rightarrow> IsZero (Min (set outputTimes)) | None \<Rightarrow> False)"

text \<open>The run-time system with the callees as the spec describes them.\<close>

definition specSys ::
  "(string \<times> Task) list \<Rightarrow> (Cmd \<Rightarrow> env \<Rightarrow> fs \<Rightarrow> (cause + string) \<times> fs) \<Rightarrow> fs sys" where
  "specSys tasks out =
     \<lparr>ShExists = True, ShPath = ''/bin/sh'', Tasks = tasks,
      handleVariables = handleVariables_spec, ReplaceVariables = ReplaceVariables_spec,
      getPatternsMaxTime = getPatternsMaxTime_spec, getPatternsMinTime = getPatternsMinTime_spec,
      cmdOutput = out\<rparr>"

section \<open>Observations on the history of a run\<close>

text \<open>
  The names marked and the processes run, in order; the events that a call added; a call
  that marks only names that were not marked, each once; the process that line 124 runs
  for a command template; and a list of processes that comes, one by one and in order,
  from the first command templates of a task.
\<close>

fun visits :: "event list \<Rightarrow> string list" where
  "visits [] = []"
| "visits (Visit n # es) = n # visits es"
| "visits (e # es) = visits es"

fun outputs :: "event list \<Rightarrow> Cmd list" where
  "outputs [] = []"
| "outputs (Output cmd # es) = cmd # outputs es"
| "outputs (e # es) = outputs es"

definition since :: "'w state \<Rightarrow> 'w state \<Rightarrow> event list" where
  "since s s' = drop (length (trace s)) (trace s')"

definition visits_once :: "'w state \<Rightarrow> 'w state \<Rightarrow> bool" where
  "visits_once s s' \<longleftrightarrow>
     trace s' = trace s @ since s s' \<and>
     distinct (visits (since s s')) \<and>
     set (visits (since s s')) \<inter> dom (runTasks s) = {} \<and>
     dom (runTasks s') = dom (runTasks s) \<union> set (visits (since s s'))"

definition commandFor :: "'w sys \<Rightarrow> Task \<Rightarrow> vars \<Rightarrow> env \<Rightarrow> string \<Rightarrow> Cmd" where
  "commandFor sy t vs e c =
     buildCmd sy (ReplaceVariables sy c vs e) (ReplaceVariables sy (Dir t) vs e)"

definition fromTemplate :: "'w sys \<Rightarrow> Task \<Rightarrow> Cmd \<Rightarrow> string \<Rightarrow> bool" where
  "fromTemplate sy t cmd c \<longleftrightarrow> (\<exists>vs e. cmd = commandFor sy t vs e c)"

definition in_declared_order :: "'w sys \<Rightarrow> Task \<Rightarrow> Cmd list \<Rightarrow> string list \<Rightarrow> bool" where
  "in_declared_order sy t cmds cs \<longleftrightarrow>
     length cmds \<le> length cs \<and> list_all2 (fromTemplate sy t) cmds (take (length cmds) cs)"

text \<open>
  The names under which the loop of lines 109 to 113 runs the dependencies: each template
  substituted in the state that the dependencies before it left.
\<close>

fun depNames :: "'w sys \<Rightarrow> vars \<Rightarrow> 'w state \<Rightarrow> string list \<Rightarrow> string list" where
  "depNames sy vs s [] = []"
| "depNames sy vs s (d # ds) =
     ReplaceVariables sy d vs (environ s) #
     depNames sy vs (snd (RunTask sy s (ReplaceVariables sy d vs (environ s)))) ds"

section \<open>Concrete registries and worlds\<close>

text \<open>The zero value of \<^verbatim>\<open>Task\<close>.\<close>

definition task :: Task where
  "task = \<lparr>Cmds = [], Deps = [], Sources = [], Generates = [], Dir = [],
           Variables = Map.empty, Set = []\<rparr>"

text \<open>
  A stand-in for the shell: the command line (the last argument of the \<^verbatim>\<open>exec.Cmd\<close>) is
  looked up in a script, which gives its captured output or its failure; a command that
  is not in the script fails. The world is left as it is. In the script \<open>echoes\<close> an
  \<^verbatim>\<open>echo\<close> prints its argument and a newline, as the shell's does.
\<close>

definition scripted :: "(string \<times> (cause + string)) list \<Rightarrow> Cmd \<Rightarrow> env \<Rightarrow> fs \<Rightarrow> (cause + string) \<times> fs" where
  "scripted script cmd e w =
     (case map_of script (last (Cmd_Args cmd)) of
        None \<Rightarrow> (Inl (Foreign ''exit status 127''), w)
      | Some r \<Rightarrow> (r, w))"

text \<open>
  A file system that holds the listed files with their modification times; a pattern
  matches the file of that name.
\<close>

definition files :: "(string \<times> time) list \<Rightarrow> fs" where
  "files fl =
     \<lparr>Glob = (\<lambda>p. Inr (filter (\<lambda>f. f = p) (map fst fl))),
      ModTime = (\<lambda>f. case map_of fl f of None \<Rightarrow> 0 | Some t \<Rightarrow> t)\<rparr>"

text \<open>The state of a process that has not called \<^verbatim>\<open>RunTask\<close> yet.\<close>

definition start :: "'w \<Rightarrow> 'w state" where
  "start w = \<lparr>runTasks = Map.empty, environ = Map.empty, world = w, trace = []\<rparr>"

text \<open>An acyclic registry in which \<open>d\<close> is a dependency of both \<open>b\<close> and \<open>c\<close>.\<close>

definition diamond :: "(string \<times> Task) list" where
  "diamond =
     [(''a'', task\<lparr>Deps := [''b'', ''c''], Cmds := [''echo a'']\<rparr>),
      (''b'', task\<lparr>Deps := [''d''], Cmds := [''echo b'']\<rparr>),
      (''c'', task\<lparr>Deps := [''d''], Cmds := [''echo c'']\<rparr>),
      (''d'', task\<lparr>Cmds := [''echo d'']\<rparr>)]"

definition echoes :: "(string \<times> (cause + string)) list" where
  "echoes =
     [(''echo a'', Inr (''a'' @ [CHR 0x0A])), (''echo b'', Inr (''b'' @ [CHR 0x0A])),
      (''echo c'', Inr (''c'' @ [CHR 0x0A])), (''echo d'', Inr (''d'' @ [CHR 0x0A])),
      (''echo hi'', Inr (''hi'' @ [CHR 0x0A])), (''echo 42'', Inr (''42'' @ [CHR 0x0A])),
      (''echo 42'' @ [CHR 0x0A], Inr (''42'' @ [CHR 0x0A])),
      (''false'', Inl (Foreign ''exit status 1''))]"


text \<open>A task whose second command fails.\<close>

definition failing :: "(string \<times> Task) list" where
  "failing = [(''t'', task\<lparr>Cmds := [''echo hi'', ''false'', ''echo a'']\<rparr>)]"

text \<open>The registry of the cycle scenario: \<open>a\<close> depends on \<open>b\<close> and \<open>b\<close> on \<open>a\<close>.\<close>

definition cycle :: "(string \<times> Task) list" where
  "cycle =
     [(''a'', task\<lparr>Deps := [''b''], Cmds := [''echo a'']\<rparr>),
      (''b'', task\<lparr>Deps := [''a''], Cmds := [''echo b'']\<rparr>)]"

text \<open>A task with sources and generated files, a dependency and a command.\<close>

definition generated :: "(string \<times> Task) list" where
  "generated =
     [(''gen'', task\<lparr>Deps := [''d''], Cmds := [''echo hi''], Sources := [''in.txt''],
         Generates := [''out.txt'']\<rparr>),
      (''d'', task\<lparr>Cmds := [''echo d'']\<rparr>)]"

text \<open>The edges of the dependency graph of a registry, from a task to each of its dependencies.\<close>

definition dependencies :: "(string \<times> Task) list \<Rightarrow> (string \<times> string) list" where
  "dependencies tasks = [(n, d). (n, t) \<leftarrow> tasks, d \<leftarrow> Deps t]"

text \<open>A task with one source and one generated file.\<close>

definition zeroSource :: "(string \<times> Task) list" where
  "zeroSource = [(''gen'', task\<lparr>Sources := [''in.txt''], Generates := [''out.txt'']\<rparr>)]"

text \<open>A registry without shared dependencies, with tasks of several commands.\<close>

definition tree :: "(string \<times> Task) list" where
  "tree =
     [(''a'', task\<lparr>Deps := [''b'', ''c''], Cmds := [''echo a'', ''echo hi'']\<rparr>),
      (''b'', task\<lparr>Cmds := [''echo b'', ''echo 42'']\<rparr>),
      (''c'', task\<lparr>Cmds := [''echo c'']\<rparr>)]"

text \<open>
  Two registries in which \<open>a\<close> depends on \<open>b\<close> and \<open>b\<close> on \<open>a\<close>: in the first \<open>a\<close> has
  the dependency \<open>d\<close> before \<open>b\<close>, in the second \<open>a\<close> has sources and generated files.
\<close>

definition cycleAfterDep :: "(string \<times> Task) list" where
  "cycleAfterDep =
     [(''a'', task\<lparr>Deps := [''d'', ''b''], Cmds := [''echo a'']\<rparr>),
      (''b'', task\<lparr>Deps := [''a''], Cmds := [''echo b'']\<rparr>),
      (''d'', task\<lparr>Cmds := [''echo d'']\<rparr>)]"

definition cycleUpToDate :: "(string \<times> Task) list" where
  "cycleUpToDate =
     [(''a'', task\<lparr>Deps := [''b''], Cmds := [''echo a''], Sources := [''in.txt''],
         Generates := [''out.txt'']\<rparr>),
      (''b'', task\<lparr>Deps := [''a''], Cmds := [''echo b'']\<rparr>)]"


section \<open>Shared lemmas\<close>

lemma visits_append [simp]: "visits (xs @ ys) = visits xs @ visits ys"
  by (induction xs rule: visits.induct) simp_all

lemma outputs_append [simp]: "outputs (xs @ ys) = outputs xs @ outputs ys"
  by (induction xs rule: outputs.induct) simp_all

lemma since_append: "trace s' = trace s @ evs \<Longrightarrow> since s s' = evs"
  by (simp add: since_def)

lemma since_same [simp]: "since s s = []"
  by (simp add: since_def)

lemma visits_onceI:
  "trace s' = trace s @ evs \<Longrightarrow> distinct (visits evs) \<Longrightarrow>
   set (visits evs) \<inter> dom (runTasks s) = {} \<Longrightarrow>
   dom (runTasks s') = dom (runTasks s) \<union> set (visits evs) \<Longrightarrow> visits_once s s'"
  by (simp add: visits_once_def since_append)

lemma visits_once_refl: "visits_once s s"
  by (simp add: visits_once_def)

lemma visits_once_trans:
  assumes "visits_once s s1" and "visits_once s1 s2"
  shows "visits_once s s2"
proof -
  let ?a = "since s s1" and ?b = "since s1 s2"
  from assms have "trace s1 = trace s @ ?a" "trace s2 = trace s1 @ ?b"
    by (simp_all add: visits_once_def)
  then have tr: "trace s2 = trace s @ (?a @ ?b)"
    by simp
  from assms have d1: "dom (runTasks s1) = dom (runTasks s) \<union> set (visits ?a)"
    and d2: "dom (runTasks s2) = dom (runTasks s1) \<union> set (visits ?b)"
    and n1: "set (visits ?a) \<inter> dom (runTasks s) = {}"
    and n2: "set (visits ?b) \<inter> dom (runTasks s1) = {}"
    and dis: "distinct (visits ?a)" "distinct (visits ?b)"
    by (simp_all add: visits_once_def)
  show ?thesis
  proof (rule visits_onceI [OF tr])
    show "distinct (visits (?a @ ?b))"
      using dis n2 d1 by auto
    show "set (visits (?a @ ?b)) \<inter> dom (runTasks s) = {}"
      using n1 n2 d1 by auto
    show "dom (runTasks s2) = dom (runTasks s) \<union> set (visits (?a @ ?b))"
      using d1 d2 by auto
  qed
qed

lemma visits_once_quiet:
  "trace s' = trace s @ evs \<Longrightarrow> visits evs = [] \<Longrightarrow> runTasks s' = runTasks s \<Longrightarrow>
   visits_once s s'"
  by (rule visits_onceI [where evs = evs]) simp_all

lemma visits_once_mark: "runTasks s name = None \<Longrightarrow> visits_once s (mark name s)"
  by (rule visits_onceI [where evs = "[Visit name]"]) (auto simp: domIff)

lemma runCommand_trace:
  "runCommand sy c p s = (r, s1) \<Longrightarrow>
   trace s1 = trace s @ [Output (buildCmd sy c p)] \<and> runTasks s1 = runTasks s \<and>
   environ s1 = environ s"
  by (auto simp: runCommand_def Let_def split: prod.splits sum.splits)

lemma runCmds_quiet:
  "runCmds sy name t s cs = (r, s') \<Longrightarrow>
   \<exists>evs. trace s' = trace s @ evs \<and> visits evs = [] \<and> runTasks s' = runTasks s"
proof (induction cs arbitrary: s)
  case Nil
  then show ?case by simp
next
  case (Cons c cs)
  show ?case
  proof (cases "handleVariables sy t (environ s) (world s)")
    case (Inl e)
    with Cons.prems show ?thesis by (auto simp: Let_def)
  next
    case (Inr vs)
    obtain r1 s1 where rc: "runCommand sy (ReplaceVariables sy c vs (environ s))
        (ReplaceVariables sy (Dir t) vs (environ s)) (emit (HandleVariables name) s) = (r1, s1)"
      by (cases "runCommand sy (ReplaceVariables sy c vs (environ s))
        (ReplaceVariables sy (Dir t) vs (environ s)) (emit (HandleVariables name) s)")
    note tr = runCommand_trace [OF rc]
    show ?thesis
    proof (cases r1)
      case (Inl e)
      with Cons.prems Inr rc tr show ?thesis by (auto simp: Let_def)
    next
      case out: (Inr out)
      let ?s3 = "if Set t \<noteq> [] then export (Set t) out (emit (Println out) s1)
                 else emit (Println out) s1"
      from Cons.prems Inr rc out have "runCmds sy name t ?s3 cs = (r, s')"
        by (simp add: Let_def)
      from Cons.IH [OF this] obtain evs where
        "trace s' = trace ?s3 @ evs" "visits evs = []" "runTasks s' = runTasks ?s3"
        by blast
      with tr show ?thesis by (auto split: if_splits)
    qed
  qed
qed

lemma runCmds_visits_once: "runCmds sy name t s cs = (r, s') \<Longrightarrow> visits_once s s'"
  by (drule runCmds_quiet) (auto intro: visits_once_quiet)

lemma RunTask_visited:
  "runTasks s name \<noteq> None \<Longrightarrow> RunTask sy s name = (Some (taskRunError name cyclic), s)"
  by (simp add: RunTask.simps)

lemma RunTask_missing:
  "runTasks s name = None \<Longrightarrow> map_of (Tasks sy) name = None \<Longrightarrow>
   RunTask sy s name = (Some (taskNotFoundError name), mark name s)"
  by (simp add: RunTask.simps Let_def)

lemma RunTask_fresh:
  "runTasks s name = None \<Longrightarrow> map_of (Tasks sy) name = Some t \<Longrightarrow>
   isTaskUpToDate sy (world s) t \<Longrightarrow>
   RunTask sy s name = (None, emit (Printf (upToDateMessage name)) (mark name s))"
  by (simp add: RunTask.simps Let_def)

lemma RunTask_vars_fail:
  "runTasks s name = None \<Longrightarrow> map_of (Tasks sy) name = Some t \<Longrightarrow>
   \<not> isTaskUpToDate sy (world s) t \<Longrightarrow> handleVariables sy t (environ s) (world s) = Inl e \<Longrightarrow>
   RunTask sy s name = (Some (taskRunError name e), emit (HandleVariables name) (mark name s))"
  by (simp add: RunTask.simps Let_def)

lemma RunTask_stale:
  "runTasks s name = None \<Longrightarrow> map_of (Tasks sy) name = Some t \<Longrightarrow>
   \<not> isTaskUpToDate sy (world s) t \<Longrightarrow> handleVariables sy t (environ s) (world s) = Inr vs \<Longrightarrow>
   RunTask sy s name =
     (case runDeps sy vs (emit (HandleVariables name) (mark name s)) (Deps t) of
        (Some err, s2) \<Rightarrow> (Some err, s2)
      | (None, s2) \<Rightarrow> runCmds sy name t s2 (Cmds t))"
  by (simp add: RunTask.simps Let_def)

lemma runDeps_append:
  "runDeps sy vs s (ds1 @ ds2) =
     (case runDeps sy vs s ds1 of
        (Some err, s1) \<Rightarrow> (Some err, s1)
      | (None, s1) \<Rightarrow> runDeps sy vs s1 ds2)"
  by (induction ds1 arbitrary: s) (auto split: prod.splits option.splits)

lemma runCmds_append:
  "runCmds sy name t s (cs1 @ cs2) =
     (case runCmds sy name t s cs1 of
        (Some err, s1) \<Rightarrow> (Some err, s1)
      | (None, s1) \<Rightarrow> runCmds sy name t s1 cs2)"
  by (induction cs1 arbitrary: s) (auto simp: Let_def split: prod.splits option.splits sum.splits)

lemma RunTask_runDeps_visits_once:
  "RunTask sy s name = (r, s') \<Longrightarrow> visits_once s s'"
  "runDeps sy vs s ds = (r, s') \<Longrightarrow> visits_once s s'"
proof (induction sy s name and sy vs s ds arbitrary: r s' and r s' rule: RunTask_runDeps.induct)
  case (1 sy s name)
  show ?case
  proof (cases "runTasks s name \<noteq> None")
    case True
    with "1.prems" show ?thesis by (simp add: RunTask_visited visits_once_refl)
  next
    case unv: False
    then have un: "runTasks s name = None" by simp
    note m = visits_once_mark [OF un]
    show ?thesis
    proof (cases "map_of (Tasks sy) name")
      case None
      with un "1.prems" m show ?thesis by (simp add: RunTask_missing)
    next
      case (Some t)
      have e1: "visits_once s (emit (Printf (upToDateMessage name)) (mark name s))"
        by (rule visits_once_trans [OF m])
          (rule visits_once_quiet [where evs = "[Printf (upToDateMessage name)]"], simp_all)
      have e2: "visits_once s (emit (HandleVariables name) (mark name s))"
        by (rule visits_once_trans [OF m])
          (rule visits_once_quiet [where evs = "[HandleVariables name]"], simp_all)
      show ?thesis
      proof (cases "isTaskUpToDate sy (world s) t")
        case True
        with un Some "1.prems" e1 show ?thesis by (simp add: RunTask_fresh)
      next
        case stale: False
        show ?thesis
        proof (cases "handleVariables sy t (environ s) (world s)")
          case (Inl err)
          with un Some stale "1.prems" e2 show ?thesis by (simp add: RunTask_vars_fail)
        next
          case (Inr vs)
          let ?s1 = "emit (HandleVariables name) (mark name s)"
          obtain r2 s2 where deps: "runDeps sy vs ?s1 (Deps t) = (r2, s2)"
            by (cases "runDeps sy vs ?s1 (Deps t)")
          have st: "\<not> isTaskUpToDate sy (world (mark name s)) t"
            using stale by simp
          have hv: "handleVariables sy t (environ ?s1) (world ?s1) = Inr vs"
            using Inr by simp
          have "visits_once ?s1 s2"
            using "1.IH" [OF unv refl Some st refl hv deps] .
          with e2 have a: "visits_once s s2"
            by (rule visits_once_trans)
          show ?thesis
          proof (cases r2)
            case None
            with un Some stale Inr deps "1.prems"
            have "runCmds sy name t s2 (Cmds t) = (r, s')"
              by (simp add: RunTask_stale)
            from runCmds_visits_once [OF this] a show ?thesis
              by (rule visits_once_trans [rotated])
          next
            case (Some err)
            with un \<open>map_of (Tasks sy) name = Some t\<close> stale Inr deps "1.prems"
            have "s' = s2"
              by (simp add: RunTask_stale)
            with a show ?thesis by simp
          qed
        qed
      qed
    qed
  qed
next
  case (2 sy vars s)
  then show ?case by (simp add: visits_once_refl)
next
  case (3 sy vars s d ds)
  obtain r1 s1 where first: "RunTask sy s (ReplaceVariables sy d vars (environ s)) = (r1, s1)"
    by (cases "RunTask sy s (ReplaceVariables sy d vars (environ s))")
  have a: "visits_once s s1"
    using "3.IH"(1) [OF first] .
  show ?case
  proof (cases r1)
    case None
    with first "3.prems" have rest: "runDeps sy vars s1 ds = (r, s')"
      by simp
    from "3.IH"(2) [OF first [symmetric] None rest] a show ?thesis
      by (rule visits_once_trans [rotated])
  next
    case (Some e)
    with first "3.prems" have "s' = s1"
      by simp
    with a show ?thesis by simp
  qed
qed

lemmas run_simps =
  RunTask.simps specSys_def scripted_def echoes_def start_def files_def task_def
  isTaskUpToDate_def handleVariables_spec_def ReplaceVariables_spec_def Substitute_def
  resolve_def getPatternsMaxTime_spec_def getPatternsMinTime_spec_def modTimes_def
  IsZero_def After_def Let_def runCommand_def buildCmd_def Command_def mark_def emit_def
  export_def accepted_def since_def commandFor_def

lemma RunTask_grows:
  "RunTask sy s name = (r, s') \<Longrightarrow> dom (runTasks s) \<subseteq> dom (runTasks s')"
  by (drule RunTask_runDeps_visits_once(1)) (auto simp: visits_once_def)

lemma calls_grows: "dom (runTasks s) \<subseteq> dom (runTasks (snd (calls sy s names)))"
proof (induction names arbitrary: s)
  case Nil
  show ?case by simp
next
  case (Cons a names)
  obtain r s1 where c: "RunTask sy s a = (r, s1)"
    by (cases "RunTask sy s a")
  have "snd (calls sy s (a # names)) = snd (calls sy s1 names)"
    using c by (simp split: prod.splits)
  with RunTask_grows [OF c] Cons.IH [of s1] show ?case
    by (simp only: subset_trans)
qed

lemma runDeps_grows:
  "runDeps sy vs s ds = (r, s') \<Longrightarrow> dom (runTasks s) \<subseteq> dom (runTasks s')"
  by (drule RunTask_runDeps_visits_once(2)) (auto simp: visits_once_def)

lemma RunTask_marks:
  assumes run: "RunTask sy s a = (r, s')"
  shows "a \<in> dom (runTasks s')"
proof (cases "runTasks s a")
  case (Some b)
  with run show ?thesis by (auto simp: RunTask_visited)
next
  case un: None
  show ?thesis
  proof (cases "map_of (Tasks sy) a")
    case None
    with un run show ?thesis by (auto simp: RunTask_missing)
  next
    case (Some t)
    show ?thesis
    proof (cases "isTaskUpToDate sy (world s) t")
      case True
      with un Some run show ?thesis by (auto simp: RunTask_fresh)
    next
      case stale: False
      show ?thesis
      proof (cases "handleVariables sy t (environ s) (world s)")
        case (Inl e)
        with un Some stale run show ?thesis by (auto simp: RunTask_vars_fail)
      next
        case (Inr vs)
        let ?s1 = "emit (HandleVariables a) (mark a s)"
        obtain r2 s2 where deps: "runDeps sy vs ?s1 (Deps t) = (r2, s2)"
          by (cases "runDeps sy vs ?s1 (Deps t)")
        from runDeps_grows [OF deps] have a2: "a \<in> dom (runTasks s2)"
          by auto
        show ?thesis
        proof (cases r2)
          case None
          with un Some stale Inr deps run have "runCmds sy a t s2 (Cmds t) = (r, s')"
            by (simp add: RunTask_stale)
          from runCmds_runTasks [OF this] a2 show ?thesis by simp
        next
          case (Some err)
          with un \<open>map_of (Tasks sy) a = Some t\<close> stale Inr deps run have "s' = s2"
            by (simp add: RunTask_stale)
          with a2 show ?thesis by simp
        qed
      qed
    qed
  qed
qed

lemma Run_loop_append:
  "Run_loop sy s (as @ bs) =
     (case Run_loop sy s as of
        (Some err, s1) \<Rightarrow> (Some err, s1)
      | (None, s1) \<Rightarrow> Run_loop sy s1 bs)"
  by (induction as arbitrary: s) (auto split: prod.splits option.splits)

lemma Run_loop_marks:
  "Run_loop sy s args = (None, s') \<Longrightarrow>
   dom (runTasks s) \<subseteq> dom (runTasks s') \<and> set args \<subseteq> dom (runTasks s')"
proof (induction args arbitrary: s)
  case Nil
  then show ?case by simp
next
  case (Cons a args)
  obtain r s1 where c: "RunTask sy s a = (r, s1)"
    by (cases "RunTask sy s a")
  with Cons.prems have r: "r = None" and rest: "Run_loop sy s1 args = (None, s')"
    by (auto split: option.splits)
  from Cons.IH [OF rest] RunTask_grows [OF c] RunTask_marks [OF c] show ?case
    by auto
qed

lemma runCmds_step_fail:
  "handleVariables sy t (environ s) (world s) = Inr vs \<Longrightarrow>
   cmdOutput sy (commandFor sy t vs (environ s) c) (environ s) (world s) = (Inl e, w) \<Longrightarrow>
   runCmds sy name t s (c # cs) =
     (Some (taskRunError name e),
      s\<lparr>world := w,
        trace := trace s @ [HandleVariables name, Output (commandFor sy t vs (environ s) c)]\<rparr>)"
  by (simp add: Let_def runCommand_def commandFor_def emit_def)

lemma runCmds_step_ok:
  "handleVariables sy t (environ s) (world s) = Inr vs \<Longrightarrow>
   cmdOutput sy (commandFor sy t vs (environ s) c) (environ s) (world s) = (Inr out, w) \<Longrightarrow>
   runCmds sy name t s (c # cs) =
     runCmds sy name t
       (let printed = s\<lparr>world := w,
              trace := trace s @ [HandleVariables name,
                Output (commandFor sy t vs (environ s) c), Println out]\<rparr>
        in if Set t \<noteq> [] then export (Set t) out printed else printed) cs"
  by (simp add: Let_def runCommand_def commandFor_def emit_def)

lemma scan_text_char:
  "CHR ''{'' \<noteq> a \<Longrightarrow> scan look None (a # xs) = a # scan look None xs"
  by (cases xs) auto

lemma scan_text:
  "CHR ''{'' \<notin> set p \<Longrightarrow> scan look None (p @ xs) = p @ scan look None xs"
  by (induction p) (simp_all add: scan_text_char)

lemma scan_name:
  "CHR ''}'' \<notin> set n \<Longrightarrow>
   scan look (Some m) (n @ ''}}'' @ xs) =
     (case look (m @ n) of Some v \<Rightarrow> v | None \<Rightarrow> ''{{'' @ m @ n @ ''}}'') @ scan look None xs"
proof (induction n arbitrary: m)
  case Nil
  show ?case by (simp split: option.splits)
next
  case (Cons a n)
  then have "scan look (Some m) ((a # n) @ ''}}'' @ xs) =
      scan look (Some (m @ [a])) (n @ ''}}'' @ xs)"
    by (cases n) auto
  with Cons show ?case by (simp split: option.splits)
qed

lemma scan_placeholder:
  assumes "CHR ''}'' \<notin> set n"
  shows "scan look None (''{{'' @ n @ ''}}'' @ xs) =
     (case look n of Some v \<Rightarrow> v | None \<Rightarrow> ''{{'' @ n @ ''}}'') @ scan look None xs"
proof -
  have "scan look None (''{{'' @ n @ ''}}'' @ xs) = scan look (Some []) (n @ ''}}'' @ xs)"
    by simp
  also have "\<dots> = (case look ([] @ n) of Some v \<Rightarrow> v | None \<Rightarrow> ''{{'' @ [] @ n @ ''}}'') @
      scan look None xs"
    using assms by (rule scan_name)
  finally show ?thesis by (simp split: option.splits)
qed

lemma Substitute_placeholder:
  assumes "CHR ''{'' \<notin> set p" and "CHR ''}'' \<notin> set n"
  shows "Substitute look (p @ ''{{'' @ n @ ''}}'' @ q) =
     p @ (case look n of Some v \<Rightarrow> v | None \<Rightarrow> ''{{'' @ n @ ''}}'') @ Substitute look q"
  unfolding Substitute_def
  by (simp only: scan_text [OF assms(1)] scan_placeholder [OF assms(2)])

lemma scan_unresolved:
  "scan (\<lambda>n. None) m xs = (case m of None \<Rightarrow> xs | Some n \<Rightarrow> ''{{'' @ n @ xs)"
  by (induction "(\<lambda>n. None) :: string \<Rightarrow> string option" m xs rule: scan.induct) simp_all

lemma scan_total:
  "scan look m xs =
   scan (\<lambda>n. Some (case look n of Some v \<Rightarrow> v | None \<Rightarrow> ''{{'' @ n @ ''}}'')) m xs"
  by (induction look m xs rule: scan.induct) (simp_all split: option.splits)



lemma in_declared_order_Nil: "in_declared_order sy t [] cs"
  by (simp add: in_declared_order_def)

lemma in_declared_order_Cons:
  "fromTemplate sy t cmd c \<Longrightarrow> in_declared_order sy t cmds cs \<Longrightarrow>
   in_declared_order sy t (cmd # cmds) (c # cs)"
  by (simp add: in_declared_order_def)

lemma fromTemplate_commandFor: "fromTemplate sy t (commandFor sy t vs e c) c"
  unfolding fromTemplate_def by blast

lemma runCmds_in_order:
  "runCmds sy name t s cs = (r, s') \<Longrightarrow>
   \<exists>evs. trace s' = trace s @ evs \<and> in_declared_order sy t (outputs evs) cs \<and>
     (r = None \<longrightarrow> length (outputs evs) = length cs)"
proof (induction cs arbitrary: s)
  case Nil
  then show ?case by (simp add: in_declared_order_Nil)
next
  case (Cons c cs)
  show ?case
  proof (cases "handleVariables sy t (environ s) (world s)")
    case (Inl e)
    with Cons.prems have "trace s' = trace s @ [HandleVariables name]" and "r \<noteq> None"
      by (auto simp: Let_def)
    then show ?thesis
      by (intro exI [where x = "[HandleVariables name]"]) (auto simp: in_declared_order_Nil)
  next
    case (Inr vs)
    let ?cmd = "commandFor sy t vs (environ s) c"
    obtain r1 w where out: "cmdOutput sy ?cmd (environ s) (world s) = (r1, w)"
      by (cases "cmdOutput sy ?cmd (environ s) (world s)")
    show ?thesis
    proof (cases r1)
      case (Inl e)
      from Cons.prems runCmds_step_fail [OF Inr out [unfolded Inl], of name cs]
      have "trace s' = trace s @ [HandleVariables name, Output ?cmd]" and "r \<noteq> None"
        by auto
      then show ?thesis
        by (intro exI [where x = "[HandleVariables name, Output ?cmd]"])
          (auto simp: in_declared_order_Nil in_declared_order_Cons fromTemplate_commandFor)
    next
      case ok: (Inr b)
      let ?evs = "if Set t \<noteq> []
        then [HandleVariables name, Output ?cmd, Println b, Setenv (Set t) b]
        else [HandleVariables name, Output ?cmd, Println b]"
      let ?printed = "s\<lparr>world := w,
        trace := trace s @ [HandleVariables name, Output ?cmd, Println b]\<rparr>"
      let ?next = "if Set t \<noteq> [] then export (Set t) b ?printed else ?printed"
      from Cons.prems runCmds_step_ok [OF Inr out [unfolded ok], of name cs]
      have "runCmds sy name t ?next cs = (r, s')"
        by (simp only: Let_def)
      from Cons.IH [OF this] obtain evs where
        tr: "trace s' = trace ?next @ evs" and ord: "in_declared_order sy t (outputs evs) cs"
        and len: "r = None \<longrightarrow> length (outputs evs) = length cs"
        by blast
      have "trace ?next = trace s @ ?evs"
        by simp
      with tr have "trace s' = trace s @ (?evs @ evs)"
        by simp
      moreover have "outputs (?evs @ evs) = ?cmd # outputs evs"
        by simp
      ultimately show ?thesis
        using ord len
        by (intro exI [where x = "?evs @ evs"])
          (simp add: in_declared_order_Cons fromTemplate_commandFor del: outputs_append)
    qed
  qed
qed

lemma Run_loop_visits_once: "Run_loop sy s args = (r, s') \<Longrightarrow> visits_once s s'"
proof (induction args arbitrary: s)
  case Nil
  then show ?case by (simp add: visits_once_refl)
next
  case (Cons a args)
  obtain r1 s1 where c: "RunTask sy s a = (r1, s1)"
    by (cases "RunTask sy s a")
  note v = RunTask_runDeps_visits_once(1) [OF c]
  show ?case
  proof (cases r1)
    case None
    with c Cons.prems have "Run_loop sy s1 args = (r, s')"
      by simp
    from v Cons.IH [OF this] show ?thesis
      by (rule visits_once_trans)
  next
    case (Some e)
    with c Cons.prems v show ?thesis by simp
  qed
qed

lemma since_trans:
  assumes "visits_once s s1" and "visits_once s1 s2"
  shows "since s s2 = since s s1 @ since s1 s2"
proof -
  from assms have "trace s1 = trace s @ since s s1" "trace s2 = trace s1 @ since s1 s2"
    by (simp_all add: visits_once_def)
  then have "trace s2 = trace s @ (since s s1 @ since s1 s2)"
    by simp
  then show ?thesis
    by (rule since_append)
qed

lemma RunTask_success_visits:
  assumes run: "RunTask sy s name = (None, s')"
  shows "name \<in> set (visits (since s s'))"
proof -
  have "runTasks s name = None"
  proof (rule ccontr)
    assume "runTasks s name \<noteq> None"
    from RunTask_visited [OF this, of sy] run show False by simp
  qed
  moreover have "name \<in> dom (runTasks s')"
    using run by (rule RunTask_marks)
  moreover have "dom (runTasks s') = dom (runTasks s) \<union> set (visits (since s s'))"
    using RunTask_runDeps_visits_once(1) [OF run] by (simp add: visits_once_def)
  ultimately show ?thesis
    by auto
qed

lemma runDeps_success_visits:
  "runDeps sy vs s ds = (None, s') \<Longrightarrow>
   set (depNames sy vs s ds) \<subseteq> set (visits (since s s')) \<and> distinct (depNames sy vs s ds)"
proof (induction ds arbitrary: s)
  case Nil
  then show ?case by simp
next
  case (Cons d ds)
  let ?n = "ReplaceVariables sy d vs (environ s)"
  obtain r1 s1 where first: "RunTask sy s ?n = (r1, s1)"
    by (cases "RunTask sy s ?n")
  with Cons.prems have ok: "r1 = None" and rest: "runDeps sy vs s1 ds = (None, s')"
    by (auto split: option.splits)
  from first ok have run: "RunTask sy s ?n = (None, s1)"
    by simp
  note v1 = RunTask_runDeps_visits_once(1) [OF run]
  note v2 = RunTask_runDeps_visits_once(2) [OF rest]
  have app: "since s s' = since s s1 @ since s1 s'"
    using v1 v2 by (rule since_trans)
  from Cons.IH [OF rest] have sub: "set (depNames sy vs s1 ds) \<subseteq> set (visits (since s1 s'))"
    and dis: "distinct (depNames sy vs s1 ds)"
    by simp_all
  have "?n \<in> dom (runTasks s1)"
    using run by (rule RunTask_marks)
  moreover have "set (visits (since s1 s')) \<inter> dom (runTasks s1) = {}"
    using v2 by (simp add: visits_once_def)
  ultimately have "?n \<notin> set (depNames sy vs s1 ds)"
    using sub by auto
  with sub dis RunTask_success_visits [OF run] app run show ?case
    by auto
qed

lemma length_depNames: "length (depNames sy vs s ds) = length ds"
  by (induction ds arbitrary: s) simp_all

lemma tree_run:
  "fst (RunTask (specSys tree (scripted echoes)) (start (files [])) ''a'') = None \<and>
   fst (runDeps (specSys tree (scripted echoes)) Map.empty
       (emit (HandleVariables ''a'') (mark ''a'' (start (files [])))) [''b'', ''c'']) = None \<and>
   visits (trace (snd (RunTask (specSys tree (scripted echoes)) (start (files [])) ''a''))) =
     [''a'', ''b'', ''c''] \<and>
   depNames (specSys tree (scripted echoes)) Map.empty
       (emit (HandleVariables ''a'') (mark ''a'' (start (files [])))) [''b'', ''c''] =
     [''b'', ''c''] \<and>
   map (\<lambda>c. last (Cmd_Args c))
     (outputs (trace (snd (RunTask (specSys tree (scripted echoes)) (start (files [])) ''a'')))) =
     [''echo b'', ''echo 42'', ''echo c'', ''echo a'', ''echo hi'']"
  by code_simp

lemma diamond_second_reach:
  "runDeps (specSys diamond (scripted echoes)) Map.empty (mark ''d'' (start (files [])))
     [''d'', ''x''] =
     (Some (taskRunError ''d'' cyclic), mark ''d'' (start (files [])))"
  by (simp add: RunTask_visited specSys_def ReplaceVariables_spec_def Substitute_def)

section \<open>The claims\<close>

text \<open>
  C2, as stated, fails in its particular case. In \<open>cycleAfterDep\<close> task \<open>a\<close> depends on
  \<open>b\<close> and \<open>b\<close> on \<open>a\<close>, but \<open>a\<close> has the dependency \<open>d\<close> first: \<^verbatim>\<open>RunTask\<close> on \<open>a\<close>
  runs the command of \<open>d\<close> before it returns the cyclic-dependency error. In
  \<open>cycleUpToDate\<close> task \<open>a\<close> is up to date: \<^verbatim>\<open>RunTask\<close> on \<open>a\<close> returns \<^verbatim>\<open>nil\<close>.
\<close>

theorem RunTask_cyclic_counterexample:
  "fst (RunTask (specSys cycleAfterDep (scripted echoes)) (start (files [])) ''a'') =
     Some (taskRunError ''a'' cyclic) \<and>
   map (\<lambda>c. last (Cmd_Args c))
     (outputs (trace (snd (RunTask (specSys cycleAfterDep (scripted echoes))
        (start (files [])) ''a'')))) = [''echo d''] \<and>
   fst (RunTask (specSys cycleUpToDate (scripted echoes))
     (start (files [(''in.txt'', 100), (''out.txt'', 200)])) ''a'') = None"
  by code_simp

text \<open>
  C2, amended. A name that is already marked in \<^verbatim>\<open>runTasks\<close> makes \<^verbatim>\<open>RunTask\<close> return the
  cyclic-dependency error at once: the state is the one it was given, whatever the registry
  holds for the name. In particular, when the first dependency of task \<open>a\<close> is \<open>b\<close> and
  the first dependency of \<open>b\<close> is \<open>a\<close>, neither is marked or up to date and the variables of
  both resolve, \<^verbatim>\<open>RunTask\<close> on \<open>a\<close> returns the cyclic-dependency error for \<open>a\<close>, having
  marked \<open>a\<close> and \<open>b\<close> and run no process.
\<close>

theorem RunTask_cyclic_dependency:
  "(runTasks s name \<noteq> None \<longrightarrow> RunTask sy s name = (Some (taskRunError name cyclic), s)) \<and>
   (runTasks s a = None \<and> runTasks s b = None \<and>
    map_of (Tasks sy) a = Some ta \<and> map_of (Tasks sy) b = Some tb \<and>
    \<not> isTaskUpToDate sy (world s) ta \<and> \<not> isTaskUpToDate sy (world s) tb \<and>
    handleVariables sy ta (environ s) (world s) = Inr va \<and>
    handleVariables sy tb (environ s) (world s) = Inr vb \<and>
    Deps ta = da # dsa \<and> ReplaceVariables sy da va (environ s) = b \<and>
    Deps tb = db # dsb \<and> ReplaceVariables sy db vb (environ s) = a \<longrightarrow>
    RunTask sy s a =
      (Some (taskRunError a cyclic),
       if a = b then emit (HandleVariables a) (mark a s)
       else emit (HandleVariables b) (mark b (emit (HandleVariables a) (mark a s)))) \<and>
    outputs (since s (snd (RunTask sy s a))) = [])"
proof (intro conjI impI)
  assume "runTasks s name \<noteq> None"
  then show "RunTask sy s name = (Some (taskRunError name cyclic), s)"
    by (rule RunTask_visited)
next
  assume h: "runTasks s a = None \<and> runTasks s b = None \<and>
    map_of (Tasks sy) a = Some ta \<and> map_of (Tasks sy) b = Some tb \<and>
    \<not> isTaskUpToDate sy (world s) ta \<and> \<not> isTaskUpToDate sy (world s) tb \<and>
    handleVariables sy ta (environ s) (world s) = Inr va \<and>
    handleVariables sy tb (environ s) (world s) = Inr vb \<and>
    Deps ta = da # dsa \<and> ReplaceVariables sy da va (environ s) = b \<and>
    Deps tb = db # dsb \<and> ReplaceVariables sy db vb (environ s) = a"
  let ?s1 = "emit (HandleVariables a) (mark a s)"
  let ?s2 = "emit (HandleVariables b) (mark b ?s1)"
  let ?end = "if a = b then ?s1 else ?s2"
  have inner: "RunTask sy ?s1 b = (Some (taskRunError a cyclic), ?end)"
  proof (cases "a = b")
    case True
    then show ?thesis
      by (simp add: RunTask_visited)
  next
    case False
    then have "b \<noteq> a"
      by blast
    have again: "RunTask sy ?s2 a = (Some (taskRunError a cyclic), ?s2)"
      by (rule RunTask_visited) (use False in auto)
    from h \<open>b \<noteq> a\<close> False again show ?thesis
      by (subst RunTask_stale [where t = tb and vs = vb]) simp_all
  qed
  show run: "RunTask sy s a = (Some (taskRunError a cyclic), ?end)"
    using h inner by (subst RunTask_stale [where t = ta and vs = va]) simp_all
  show "outputs (since s (snd (RunTask sy s a))) = []"
    by (simp add: run since_def)
qed

theorem RunTask_cyclic_dependency_witness:
  "RunTask (specSys cycle (scripted echoes)) (mark ''a'' (start (files []))) ''a'' =
     (Some (taskRunError ''a'' cyclic), mark ''a'' (start (files []))) \<and>
   RunTask (specSys cycle (scripted echoes)) (start (files [])) ''a'' =
     (Some (taskRunError ''a'' cyclic),
      emit (HandleVariables ''b'') (mark ''b'' (emit (HandleVariables ''a'')
        (mark ''a'' (start (files [])))))) \<and>
   outputs (since (start (files []))
     (snd (RunTask (specSys cycle (scripted echoes)) (start (files [])) ''a''))) = []"
  using RunTask_cyclic_dependency [where sy = "specSys cycle (scripted echoes)"
      and s = "mark ''a'' (start (files []))" and name = "''a''", THEN conjunct1]
    RunTask_cyclic_dependency [where sy = "specSys cycle (scripted echoes)"
      and s = "start (files [])" and a = "''a''" and b = "''b''"
      and ta = "task\<lparr>Deps := [''b''], Cmds := [''echo a'']\<rparr>"
      and tb = "task\<lparr>Deps := [''a''], Cmds := [''echo b'']\<rparr>"
      and va = Map.empty and vb = Map.empty and da = "''b''" and dsa = "[]"
      and db = "''a''" and dsb = "[]", THEN conjunct2]
  by (simp add: specSys_def cycle_def start_def task_def isTaskUpToDate_def
      handleVariables_spec_def ReplaceVariables_spec_def Substitute_def since_def)

text \<open>
  C10. A name that the registry does not define is marked before the not-found error is
  returned: the first call returns \<^verbatim>\<open>taskNotFoundError\<close> and leaves the name marked, and
  a call on the same name after any further calls of \<^verbatim>\<open>RunTask\<close> on the same state
  returns the cyclic-dependency error.
\<close>

theorem RunTask_missing_then_cyclic:
  "map_of (Tasks sy) name = None \<and> runTasks s name = None \<longrightarrow>
   RunTask sy s name = (Some (taskNotFoundError name), mark name s) \<and>
   RunTask sy (snd (calls sy (mark name s) names)) name =
     (Some (taskRunError name cyclic), snd (calls sy (mark name s) names))"
proof (intro impI conjI)
  assume h: "map_of (Tasks sy) name = None \<and> runTasks s name = None"
  then show "RunTask sy s name = (Some (taskNotFoundError name), mark name s)"
    by (simp add: RunTask_missing)
  have "name \<in> dom (runTasks (mark name s))"
    by simp
  with calls_grows [of "mark name s" sy names]
  have "runTasks (snd (calls sy (mark name s) names)) name \<noteq> None"
    by blast
  then show "RunTask sy (snd (calls sy (mark name s) names)) name =
     (Some (taskRunError name cyclic), snd (calls sy (mark name s) names))"
    by (rule RunTask_visited)
qed

theorem RunTask_missing_then_cyclic_witness:
  "RunTask (specSys diamond (scripted echoes)) (start (files [])) ''x'' =
     (Some (taskNotFoundError ''x''), mark ''x'' (start (files []))) \<and>
   fst (calls (specSys diamond (scripted echoes)) (start (files [])) [''x'', ''d'', ''x'', ''x'']) =
     [Some (taskNotFoundError ''x''), None, Some (taskRunError ''x'' cyclic),
      Some (taskRunError ''x'' cyclic)]"
  using RunTask_missing_then_cyclic [where sy = "specSys diamond (scripted echoes)"
      and s = "start (files [])" and name = "''x''" and names = "[''d'']"]
  by (auto simp: run_simps diamond_def split: prod.splits)

text \<open>
  C4. For a task that is up to date, \<^verbatim>\<open>RunTask\<close> marks the name, logs the message and
  returns \<^verbatim>\<open>nil\<close>: these two are the only events, so no variables are resolved, no
  dependency is visited and no process is run; the environment and the world are untouched.
\<close>

theorem RunTask_up_to_date:
  "runTasks s name = None \<and> map_of (Tasks sy) name = Some t \<and> isTaskUpToDate sy (world s) t \<longrightarrow>
   RunTask sy s name = (None, emit (Printf (upToDateMessage name)) (mark name s)) \<and>
   since s (snd (RunTask sy s name)) = [Visit name, Printf (upToDateMessage name)] \<and>
   environ (snd (RunTask sy s name)) = environ s \<and>
   world (snd (RunTask sy s name)) = world s"
  by (simp add: RunTask_fresh since_def)

theorem RunTask_up_to_date_witness:
  "isTaskUpToDate (specSys generated (scripted echoes))
     (files [(''in.txt'', 100), (''out.txt'', 200)])
     (task\<lparr>Deps := [''d''], Cmds := [''echo hi''], Sources := [''in.txt''],
         Generates := [''out.txt'']\<rparr>) \<and>
   fst (RunTask (specSys generated (scripted echoes))
     (start (files [(''in.txt'', 100), (''out.txt'', 200)])) ''gen'') = None \<and>
   trace (snd (RunTask (specSys generated (scripted echoes))
     (start (files [(''in.txt'', 100), (''out.txt'', 200)])) ''gen'')) =
     [Visit ''gen'', Printf (upToDateMessage ''gen'')]"
  using RunTask_up_to_date [where sy = "specSys generated (scripted echoes)"
      and s = "start (files [(''in.txt'', 100), (''out.txt'', 200)])" and name = "''gen''"
      and t = "task\<lparr>Deps := [''d''], Cmds := [''echo hi''], Sources := [''in.txt''],
         Generates := [''out.txt'']\<rparr>"]
  by (simp add: run_simps generated_def)

text \<open>
  C7. \<^verbatim>\<open>runTasks\<close> is one map for the whole process and only grows: a call of
  \<^verbatim>\<open>RunTask\<close> keeps every name that was marked and leaves its own name marked. So after
  the top-level calls of \<^verbatim>\<open>Run\<close> for \<open>args\<close> have succeeded, every argument is marked,
  and a further top-level call on any marked name, an argument or a dependency visited on
  the way, returns the cyclic-dependency error.
\<close>

theorem runTasks_only_grows:
  "dom (runTasks s) \<subseteq> dom (runTasks (snd (RunTask sy s a))) \<and>
   a \<in> dom (runTasks (snd (RunTask sy s a))) \<and>
   (Run_loop sy s args = (None, s') \<longrightarrow>
      dom (runTasks s) \<subseteq> dom (runTasks s') \<and> set args \<subseteq> dom (runTasks s') \<and>
      (n \<in> dom (runTasks s') \<longrightarrow>
         Run_loop sy s (args @ [n]) = (Some (taskRunError n cyclic), s')))"
proof (intro conjI impI)
  obtain r s1 where c: "RunTask sy s a = (r, s1)"
    by (cases "RunTask sy s a")
  from RunTask_grows [OF c] c
  show "dom (runTasks s) \<subseteq> dom (runTasks (snd (RunTask sy s a)))"
    by simp
  from RunTask_marks [OF c] c show "a \<in> dom (runTasks (snd (RunTask sy s a)))"
    by simp
next
  assume "Run_loop sy s args = (None, s')"
  from Run_loop_marks [OF this]
  show "dom (runTasks s) \<subseteq> dom (runTasks s')" and "set args \<subseteq> dom (runTasks s')"
    by simp_all
next
  assume loop: "Run_loop sy s args = (None, s')" and "n \<in> dom (runTasks s')"
  then have "RunTask sy s' n = (Some (taskRunError n cyclic), s')"
    by (intro RunTask_visited) auto
  with loop show "Run_loop sy s (args @ [n]) = (Some (taskRunError n cyclic), s')"
    by (simp add: Run_loop_append)
qed

theorem runTasks_only_grows_witness:
  "fst (Run_loop (specSys diamond (scripted echoes)) (start (files [])) [''b'']) = None \<and>
   fst (Run_loop (specSys diamond (scripted echoes)) (start (files [])) [''b'', ''b'']) =
     Some (taskRunError ''b'' cyclic) \<and>
   fst (Run_loop (specSys diamond (scripted echoes)) (start (files [])) [''b'', ''d'']) =
     Some (taskRunError ''d'' cyclic)"
  using runTasks_only_grows [where sy = "specSys diamond (scripted echoes)"
      and s = "start (files [])" and args = "[''b'']" and n = "''b''"
      and s' = "snd (Run_loop (specSys diamond (scripted echoes)) (start (files [])) [''b''])"]
    runTasks_only_grows [where sy = "specSys diamond (scripted echoes)"
      and s = "start (files [])" and args = "[''b'']" and n = "''d''"
      and s' = "snd (Run_loop (specSys diamond (scripted echoes)) (start (files [])) [''b''])"]
  by (auto simp: run_simps diamond_def)

text \<open>
  C5. The dependencies are run from left to right, each by \<^verbatim>\<open>RunTask\<close> on its
  substituted name and on the state its predecessors left, the later ones only when the
  earlier ones returned \<^verbatim>\<open>nil\<close>. When the dependency \<open>d\<close> fails after the dependencies
  \<open>before\<close> it succeeded, \<^verbatim>\<open>RunTask\<close> returns the very error of \<open>d\<close>, not wrapped, and
  the state is the one in which \<open>d\<close> returned: no later dependency and no command of the
  task has run.
\<close>

theorem dependency_failure_propagates:
  "runDeps sy vs s (before @ after) =
     (case runDeps sy vs s before of
        (Some err, s1) \<Rightarrow> (Some err, s1)
      | (None, s1) \<Rightarrow> runDeps sy vs s1 after) \<and>
   runDeps sy vs s [d] = RunTask sy s (ReplaceVariables sy d vs (environ s)) \<and>
   (runTasks s name = None \<and> map_of (Tasks sy) name = Some t \<and>
    \<not> isTaskUpToDate sy (world s) t \<and> handleVariables sy t (environ s) (world s) = Inr vs \<and>
    Deps t = before @ d # after \<and>
    runDeps sy vs (emit (HandleVariables name) (mark name s)) before = (None, sa) \<and>
    RunTask sy sa (ReplaceVariables sy d vs (environ sa)) = (Some err, sb) \<longrightarrow>
    RunTask sy s name = (Some err, sb))"
proof (intro conjI impI)
  show "runDeps sy vs s (before @ after) =
     (case runDeps sy vs s before of
        (Some err, s1) \<Rightarrow> (Some err, s1)
      | (None, s1) \<Rightarrow> runDeps sy vs s1 after)"
    by (rule runDeps_append)
  show "runDeps sy vs s [d] = RunTask sy s (ReplaceVariables sy d vs (environ s))"
    by (simp split: prod.splits option.splits)
next
  assume h: "runTasks s name = None \<and> map_of (Tasks sy) name = Some t \<and>
    \<not> isTaskUpToDate sy (world s) t \<and> handleVariables sy t (environ s) (world s) = Inr vs \<and>
    Deps t = before @ d # after \<and>
    runDeps sy vs (emit (HandleVariables name) (mark name s)) before = (None, sa) \<and>
    RunTask sy sa (ReplaceVariables sy d vs (environ sa)) = (Some err, sb)"
  then have "runDeps sy vs (emit (HandleVariables name) (mark name s)) (Deps t) = (Some err, sb)"
    by (simp add: runDeps_append)
  with h show "RunTask sy s name = (Some err, sb)"
    by (simp add: RunTask_stale)
qed

theorem dependency_failure_propagates_witness:
  "fst (RunTask (specSys diamond (scripted echoes)) (start (files [])) ''a'') =
     Some (taskRunError ''d'' cyclic) \<and>
   map (\<lambda>c. last (Cmd_Args c))
     (outputs (trace (snd (RunTask (specSys diamond (scripted echoes)) (start (files [])) ''a'')))) =
     [''echo d'', ''echo b'']"
  using dependency_failure_propagates [where sy = "specSys diamond (scripted echoes)"
      and s = "start (files [])" and name = "''a''" and vs = Map.empty
      and t = "task\<lparr>Deps := [''b'', ''c''], Cmds := [''echo a'']\<rparr>"
      and before = "[''b'']" and d = "''c''" and after = "[]"
      and sa = "snd (RunTask (specSys diamond (scripted echoes))
          (emit (HandleVariables ''a'') (mark ''a'' (start (files [])))) ''b'')"
      and sb = "snd (RunTask (specSys diamond (scripted echoes))
         (snd (RunTask (specSys diamond (scripted echoes))
          (emit (HandleVariables ''a'') (mark ''a'' (start (files [])))) ''b'')) ''c'')"
      and err = "taskRunError ''d'' cyclic"]
  by (auto simp: run_simps diamond_def)

text \<open>
  C6. When the process of a command fails with the error \<open>e\<close>, the loop over the commands
  returns \<^verbatim>\<open>taskRunError\<close> with the name of the task and \<open>e\<close>; the last event is the
  failed process, so none of the remaining commands \<open>cs\<close> is run. \<^verbatim>\<open>RunTask\<close> returns
  that same result when the failure is that of a command of the task, after its dependencies
  and its commands \<open>finished\<close> before it succeeded.
\<close>

theorem command_failure_is_wrapped:
  "handleVariables sy t (environ s) (world s) = Inr vs \<and>
   cmdOutput sy (commandFor sy t vs (environ s) c) (environ s) (world s) = (Inl e, w) \<longrightarrow>
   runCmds sy name t s (c # cs) =
     (Some (taskRunError name e),
      s\<lparr>world := w,
        trace := trace s @ [HandleVariables name, Output (commandFor sy t vs (environ s) c)]\<rparr>) \<and>
   (runTasks init name = None \<and> map_of (Tasks sy) name = Some t \<and>
    \<not> isTaskUpToDate sy (world init) t \<and>
    handleVariables sy t (environ init) (world init) = Inr vi \<and>
    runDeps sy vi (emit (HandleVariables name) (mark name init)) (Deps t) = (None, mid) \<and>
    Cmds t = finished @ c # cs \<and> runCmds sy name t mid finished = (None, s) \<longrightarrow>
    RunTask sy init name =
      (Some (taskRunError name e),
       s\<lparr>world := w,
         trace := trace s @ [HandleVariables name, Output (commandFor sy t vs (environ s) c)]\<rparr>))"
proof (intro impI conjI)
  assume h: "handleVariables sy t (environ s) (world s) = Inr vs \<and>
   cmdOutput sy (commandFor sy t vs (environ s) c) (environ s) (world s) = (Inl e, w)"
  then show step: "runCmds sy name t s (c # cs) =
     (Some (taskRunError name e),
      s\<lparr>world := w,
        trace := trace s @ [HandleVariables name, Output (commandFor sy t vs (environ s) c)]\<rparr>)"
    by (intro runCmds_step_fail) simp_all
  assume g: "runTasks init name = None \<and> map_of (Tasks sy) name = Some t \<and>
    \<not> isTaskUpToDate sy (world init) t \<and>
    handleVariables sy t (environ init) (world init) = Inr vi \<and>
    runDeps sy vi (emit (HandleVariables name) (mark name init)) (Deps t) = (None, mid) \<and>
    Cmds t = finished @ c # cs \<and> runCmds sy name t mid finished = (None, s)"
  then have "RunTask sy init name = runCmds sy name t mid (finished @ c # cs)"
    by (simp add: RunTask_stale)
  also have "\<dots> = runCmds sy name t s (c # cs)"
    using g by (simp add: runCmds_append)
  finally show "RunTask sy init name =
      (Some (taskRunError name e),
       s\<lparr>world := w,
         trace := trace s @ [HandleVariables name, Output (commandFor sy t vs (environ s) c)]\<rparr>)"
    using step by simp
qed

theorem command_failure_is_wrapped_witness:
  "fst (RunTask (specSys failing (scripted echoes)) (start (files [])) ''t'') =
     Some (taskRunError ''t'' (Foreign ''exit status 1'')) \<and>
   map (\<lambda>c. last (Cmd_Args c))
     (outputs (trace (snd (RunTask (specSys failing (scripted echoes)) (start (files [])) ''t'')))) =
     [''echo hi'', ''false'']"
  using command_failure_is_wrapped [where sy = "specSys failing (scripted echoes)"
      and init = "start (files [])" and name = "''t''" and vs = Map.empty and vi = Map.empty
      and t = "task\<lparr>Cmds := [''echo hi'', ''false'', ''echo a'']\<rparr>"
      and finished = "[''echo hi'']" and c = "''false''" and cs = "[''echo a'']"
      and mid = "emit (HandleVariables ''t'') (mark ''t'' (start (files [])))"
      and s = "snd (runCmds (specSys failing (scripted echoes)) ''t''
          (task\<lparr>Cmds := [''echo hi'', ''false'', ''echo a'']\<rparr>)
          (emit (HandleVariables ''t'') (mark ''t'' (start (files [])))) [''echo hi''])"
      and e = "Foreign ''exit status 1''" and w = "files []"]
  by (auto simp: run_simps failing_def)

text \<open>
  C8. In the substitution as the spec describes it, a placeholder whose name neither the
  task's variables nor the environment resolve is copied to the result as it is, and the
  substitution goes on behind it; leaving unresolved placeholders is the same as resolving
  every unresolvable name to its own placeholder; with nothing resolvable the template is
  returned unchanged, so \<^verbatim>\<open>{{MISSING}}\<close> with empty mappings is \<^verbatim>\<open>{{MISSING}}\<close>. The
  result is a string in every case: there is no error.
\<close>

theorem unresolved_placeholder_verbatim:
  "(CHR ''{'' \<notin> set p \<and> CHR ''}'' \<notin> set n \<and> vs n = None \<and> e n = None \<longrightarrow>
      ReplaceVariables_spec (p @ ''{{'' @ n @ ''}}'' @ q) vs e =
        p @ ''{{'' @ n @ ''}}'' @ ReplaceVariables_spec q vs e) \<and>
   ReplaceVariables_spec template vs e =
     Substitute (\<lambda>n. Some (case resolve vs e n of Some v \<Rightarrow> v | None \<Rightarrow> ''{{'' @ n @ ''}}''))
       template \<and>
   ReplaceVariables_spec template Map.empty Map.empty = template \<and>
   ReplaceVariables_spec ''{{MISSING}}'' Map.empty Map.empty = ''{{MISSING}}''"
proof (intro conjI impI)
  assume h: "CHR ''{'' \<notin> set p \<and> CHR ''}'' \<notin> set n \<and> vs n = None \<and> e n = None"
  then have "resolve vs e n = None"
    by (simp add: resolve_def)
  with h show "ReplaceVariables_spec (p @ ''{{'' @ n @ ''}}'' @ q) vs e =
        p @ ''{{'' @ n @ ''}}'' @ ReplaceVariables_spec q vs e"
    by (simp add: ReplaceVariables_spec_def Substitute_placeholder del: append.simps)
next
  show "ReplaceVariables_spec template vs e =
     Substitute (\<lambda>n. Some (case resolve vs e n of Some v \<Rightarrow> v | None \<Rightarrow> ''{{'' @ n @ ''}}''))
       template"
    unfolding ReplaceVariables_spec_def Substitute_def by (rule scan_total)
next
  have r: "resolve Map.empty Map.empty = (\<lambda>n. None)"
    by (simp add: resolve_def fun_eq_iff)
  show "ReplaceVariables_spec template Map.empty Map.empty = template"
    by (simp add: ReplaceVariables_spec_def Substitute_def r scan_unresolved)
  show "ReplaceVariables_spec ''{{MISSING}}'' Map.empty Map.empty = ''{{MISSING}}''"
    by (simp add: ReplaceVariables_spec_def Substitute_def r scan_unresolved)
qed

theorem unresolved_placeholder_verbatim_witness:
  "ReplaceVariables_spec ''echo {{MISSING}} {{X}}'' [''X'' \<mapsto> ''1''] Map.empty =
     ''echo {{MISSING}} 1''"
  using unresolved_placeholder_verbatim [where p = "''echo ''" and n = "''MISSING''"
      and q = "'' {{X}}''" and vs = "[''X'' \<mapsto> ''1'']" and e = Map.empty]
  by (simp add: ReplaceVariables_spec_def Substitute_def resolve_def)




text \<open>
  C3, as stated, fails: \<^verbatim>\<open>isTaskUpToDate\<close> reads a zero \<^verbatim>\<open>time.Time\<close> as "no file matched"
  (lines 141 and 146). With a source whose modification time is the zero time and a newer
  output, every condition of the claim holds and the result is \<^verbatim>\<open>false\<close>.
\<close>

theorem isTaskUpToDate_zero_time_counterexample:
  "freshAsClaimed (files [(''in.txt'', 0), (''out.txt'', 5)])
     (task\<lparr>Sources := [''in.txt''], Generates := [''out.txt'']\<rparr>) \<and>
   \<not> isTaskUpToDate (specSys zeroSource (scripted echoes))
     (files [(''in.txt'', 0), (''out.txt'', 5)])
     (task\<lparr>Sources := [''in.txt''], Generates := [''out.txt'']\<rparr>)"
  by (simp add: freshAsClaimed_def matchedTimes_def run_simps)

text \<open>
  C3, amended. With the maximum and minimum times computed as the spec describes,
  \<^verbatim>\<open>isTaskUpToDate\<close> returns \<^verbatim>\<open>true\<close> if and only if \<^verbatim>\<open>Sources\<close> and \<^verbatim>\<open>Generates\<close> are
  non-empty, both pattern lists match at least one file with no glob error, the oldest matched
  output is strictly newer than the newest matched source, and neither of these two times is
  the zero time. Equal times, an empty pattern list and no matched output give \<^verbatim>\<open>false\<close>.
\<close>

theorem isTaskUpToDate_iff:
  "isTaskUpToDate
     (sy\<lparr>getPatternsMaxTime := getPatternsMaxTime_spec,
         getPatternsMinTime := getPatternsMinTime_spec\<rparr>) w t \<longleftrightarrow>
   freshAsClaimed w t \<and> \<not> zeroExtreme w t"
  by (cases "expand w (Sources t)"; cases "expand w (Generates t)")
    (auto simp: isTaskUpToDate_def freshAsClaimed_def zeroExtreme_def matchedTimes_def
      getPatternsMaxTime_spec_def getPatternsMinTime_spec_def IsZero_def After_def)

theorem isTaskUpToDate_iff_witness:
  "isTaskUpToDate (specSys generated (scripted echoes))
     (files [(''in.txt'', 100), (''out.txt'', 200)])
     (task\<lparr>Sources := [''in.txt''], Generates := [''out.txt'']\<rparr>) \<and>
   \<not> isTaskUpToDate (specSys generated (scripted echoes))
     (files [(''in.txt'', 100), (''out.txt'', 100)])
     (task\<lparr>Sources := [''in.txt''], Generates := [''out.txt'']\<rparr>) \<and>
   \<not> isTaskUpToDate (specSys generated (scripted echoes))
     (files [(''in.txt'', 100)])
     (task\<lparr>Sources := [''in.txt''], Generates := [''out.txt'']\<rparr>) \<and>
   \<not> isTaskUpToDate (specSys generated (scripted echoes))
     (files [(''in.txt'', 100), (''out.txt'', 200)])
     (task\<lparr>Generates := [''out.txt'']\<rparr>)"
  using isTaskUpToDate_iff [where sy = "specSys generated (scripted echoes)"
      and w = "files [(''in.txt'', 100), (''out.txt'', 200)]"
      and t = "task\<lparr>Sources := [''in.txt''], Generates := [''out.txt'']\<rparr>"]
    isTaskUpToDate_iff [where sy = "specSys generated (scripted echoes)"
      and w = "files [(''in.txt'', 100), (''out.txt'', 100)]"
      and t = "task\<lparr>Sources := [''in.txt''], Generates := [''out.txt'']\<rparr>"]
    isTaskUpToDate_iff [where sy = "specSys generated (scripted echoes)"
      and w = "files [(''in.txt'', 100)]"
      and t = "task\<lparr>Sources := [''in.txt''], Generates := [''out.txt'']\<rparr>"]
    isTaskUpToDate_iff [where sy = "specSys generated (scripted echoes)"
      and w = "files [(''in.txt'', 100), (''out.txt'', 200)]"
      and t = "task\<lparr>Generates := [''out.txt'']\<rparr>"]
  by (simp add: specSys_def freshAsClaimed_def zeroExtreme_def matchedTimes_def files_def
      task_def modTimes_def IsZero_def)

text \<open>
  C1, as stated, fails: in the acyclic registry \<open>diamond\<close> the task \<open>d\<close> is a dependency of
  \<open>b\<close> and of \<open>c\<close>; \<^verbatim>\<open>RunTask\<close> on \<open>a\<close> runs \<open>b\<close> and \<open>d\<close>, and fails with the
  cyclic-dependency error when \<open>c\<close> reaches \<open>d\<close> again.
\<close>

theorem diamond_counterexample:
  "acyclic (set (dependencies diamond)) \<and>
   fst (RunTask (specSys diamond (scripted echoes)) (start (files [])) ''a'') =
     Some (taskRunError ''d'' cyclic)"
proof
  have "set (dependencies diamond) =
      {(''a'', ''b''), (''a'', ''c''), (''b'', ''d''), (''c'', ''d'')}"
    by (simp add: dependencies_def diamond_def task_def)
  then show "acyclic (set (dependencies diamond))"
    by (intro acyclicI_order [where f = "\<lambda>n. if n = ''a'' then 2 else if n = ''d'' then 0 else (1::nat)"])
      auto
  show "fst (RunTask (specSys diamond (scripted echoes)) (start (files [])) ''a'') =
     Some (taskRunError ''d'' cyclic)"
    by (auto simp: run_simps diamond_def)
qed

text \<open>
  C1, amended. For every registry, with or without cycles: a call of \<^verbatim>\<open>RunTask\<close> marks
  only names that were not marked, each once, so that in a process run from the start no
  name is visited twice; a call that returns \<^verbatim>\<open>nil\<close> has visited its own name; a task
  whose dependencies have all returned \<^verbatim>\<open>nil\<close> has visited, besides its own name, exactly
  the names that the dependencies visited, among them each dependency under its substituted
  name, these names being distinct (so each dependency is visited exactly once), and then
  runs its commands in declared order (the processes it runs come one by one from the
  first command templates, from all of them when it returns \<^verbatim>\<open>nil\<close>); and a dependency
  whose name is already marked, as one reached along a second branch is, is not run again:
  the loop over the dependencies stops there with the cyclic-dependency error.
\<close>

theorem RunTask_visits_once_in_order:
  "visits_once s (snd (RunTask sy s name)) \<and>
   distinct (visits (trace (snd (Run_loop sy (start w) args)))) \<and>
   (fst (RunTask sy s name) = None \<longrightarrow>
      name \<in> set (visits (since s (snd (RunTask sy s name))))) \<and>
   (runTasks s name = None \<and> map_of (Tasks sy) name = Some t \<and>
    \<not> isTaskUpToDate sy (world s) t \<and> handleVariables sy t (environ s) (world s) = Inr vs \<and>
    runDeps sy vs (emit (HandleVariables name) (mark name s)) (Deps t) = (None, mid) \<longrightarrow>
      RunTask sy s name = runCmds sy name t mid (Cmds t) \<and>
      visits (since s (snd (RunTask sy s name))) =
        name # visits (since (emit (HandleVariables name) (mark name s)) mid) \<and>
      set (depNames sy vs (emit (HandleVariables name) (mark name s)) (Deps t)) \<subseteq>
        set (visits (since (emit (HandleVariables name) (mark name s)) mid)) \<and>
      distinct (depNames sy vs (emit (HandleVariables name) (mark name s)) (Deps t)) \<and>
      length (depNames sy vs (emit (HandleVariables name) (mark name s)) (Deps t)) =
        length (Deps t) \<and>
      in_declared_order sy t (outputs (since mid (snd (RunTask sy s name)))) (Cmds t) \<and>
      (fst (RunTask sy s name) = None \<longrightarrow>
         length (outputs (since mid (snd (RunTask sy s name)))) = length (Cmds t))) \<and>
   (runTasks s (ReplaceVariables sy d vs (environ s)) \<noteq> None \<longrightarrow>
      runDeps sy vs s (d # ds) =
        (Some (taskRunError (ReplaceVariables sy d vs (environ s)) cyclic), s))"
proof (intro conjI impI)
  show "visits_once s (snd (RunTask sy s name))"
    by (rule RunTask_runDeps_visits_once(1) [of sy s name "fst (RunTask sy s name)"]) simp
next
  have "visits_once (start w) (snd (Run_loop sy (start w) args))"
    by (rule Run_loop_visits_once [of sy _ args "fst (Run_loop sy (start w) args)"]) simp
  then show "distinct (visits (trace (snd (Run_loop sy (start w) args))))"
    by (simp add: visits_once_def since_def start_def)
next
  assume "fst (RunTask sy s name) = None"
  then have "RunTask sy s name = (None, snd (RunTask sy s name))"
    by (metis prod.collapse)
  then show "name \<in> set (visits (since s (snd (RunTask sy s name))))"
    by (rule RunTask_success_visits)
next
  assume h: "runTasks s name = None \<and> map_of (Tasks sy) name = Some t \<and>
    \<not> isTaskUpToDate sy (world s) t \<and> handleVariables sy t (environ s) (world s) = Inr vs \<and>
    runDeps sy vs (emit (HandleVariables name) (mark name s)) (Deps t) = (None, mid)"
  let ?s1 = "emit (HandleVariables name) (mark name s)"
  from h have deps: "runDeps sy vs ?s1 (Deps t) = (None, mid)"
    by simp
  from h show run: "RunTask sy s name = runCmds sy name t mid (Cmds t)"
    by (simp add: RunTask_stale)
  obtain r s' where c: "runCmds sy name t mid (Cmds t) = (r, s')"
    by (cases "runCmds sy name t mid (Cmds t)")
  from runCmds_in_order [OF c] obtain evs where
    tr: "trace s' = trace mid @ evs" and ord: "in_declared_order sy t (outputs evs) (Cmds t)"
    and len: "r = None \<longrightarrow> length (outputs evs) = length (Cmds t)"
    by blast
  from tr have sm: "since mid s' = evs"
    by (rule since_append)
  from runCmds_quiet [OF c] tr have quiet: "visits evs = []"
    by auto
  have "trace mid = trace ?s1 @ since ?s1 mid"
    using RunTask_runDeps_visits_once(2) [OF deps] by (simp add: visits_once_def)
  with tr have "trace s' =
      trace s @ ([Visit name, HandleVariables name] @ since ?s1 mid @ evs)"
    by simp
  then have "since s s' = [Visit name, HandleVariables name] @ since ?s1 mid @ evs"
    by (rule since_append)
  with quiet run c
  show "visits (since s (snd (RunTask sy s name))) = name # visits (since ?s1 mid)"
    by simp
  from runDeps_success_visits [OF deps]
  show "set (depNames sy vs ?s1 (Deps t)) \<subseteq> set (visits (since ?s1 mid))"
    and "distinct (depNames sy vs ?s1 (Deps t))"
    by simp_all
  show "length (depNames sy vs ?s1 (Deps t)) = length (Deps t)"
    by (rule length_depNames)
  from sm ord run c
  show "in_declared_order sy t (outputs (since mid (snd (RunTask sy s name)))) (Cmds t)"
    by simp
  assume "fst (RunTask sy s name) = None"
  with sm len run c
  show "length (outputs (since mid (snd (RunTask sy s name)))) = length (Cmds t)"
    by simp
next
  assume "runTasks s (ReplaceVariables sy d vs (environ s)) \<noteq> None"
  then show "runDeps sy vs s (d # ds) =
        (Some (taskRunError (ReplaceVariables sy d vs (environ s)) cyclic), s)"
    by (simp add: RunTask_visited)
qed

theorem RunTask_visits_once_in_order_witness:
  "fst (RunTask (specSys tree (scripted echoes)) (start (files [])) ''a'') = None \<and>
   visits (trace (snd (RunTask (specSys tree (scripted echoes)) (start (files [])) ''a''))) =
     [''a'', ''b'', ''c''] \<and>
   depNames (specSys tree (scripted echoes)) Map.empty
       (emit (HandleVariables ''a'') (mark ''a'' (start (files [])))) [''b'', ''c''] =
     [''b'', ''c''] \<and>
   map (\<lambda>c. last (Cmd_Args c))
     (outputs (trace (snd (RunTask (specSys tree (scripted echoes)) (start (files [])) ''a'')))) =
     [''echo b'', ''echo 42'', ''echo c'', ''echo a'', ''echo hi''] \<and>
   length (outputs (since
       (snd (runDeps (specSys tree (scripted echoes)) Map.empty
         (emit (HandleVariables ''a'') (mark ''a'' (start (files [])))) [''b'', ''c'']))
       (snd (RunTask (specSys tree (scripted echoes)) (start (files [])) ''a'')))) = 2 \<and>
   runDeps (specSys diamond (scripted echoes)) Map.empty (mark ''d'' (start (files [])))
     [''d'', ''x''] =
     (Some (taskRunError ''d'' cyclic), mark ''d'' (start (files [])))"
proof -
  let ?sy = "specSys tree (scripted echoes)"
  let ?s = "start (files [])"
  let ?t = "task\<lparr>Deps := [''b'', ''c''], Cmds := [''echo a'', ''echo hi'']\<rparr>"
  let ?mid = "snd (runDeps ?sy Map.empty (emit (HandleVariables ''a'') (mark ''a'' ?s))
    [''b'', ''c''])"
  have "runTasks ?s ''a'' = None"
    by (simp add: start_def)
  moreover have "map_of (Tasks ?sy) ''a'' = Some ?t"
    by (simp add: specSys_def tree_def)
  moreover have "\<not> isTaskUpToDate ?sy (world ?s) ?t"
    by (simp add: isTaskUpToDate_def task_def)
  moreover have "handleVariables ?sy ?t (environ ?s) (world ?s) = Inr Map.empty"
    by (simp add: specSys_def handleVariables_spec_def task_def)
  moreover have "runDeps ?sy Map.empty (emit (HandleVariables ''a'') (mark ''a'' ?s)) (Deps ?t) =
      (None, ?mid)"
    using tree_run by (simp add: prod_eq_iff del: runDeps.simps)
  ultimately have "fst (RunTask ?sy ?s ''a'') = None \<longrightarrow>
      length (outputs (since ?mid (snd (RunTask ?sy ?s ''a'')))) = length (Cmds ?t)"
    using RunTask_visits_once_in_order [where sy = ?sy and s = ?s and name = "''a''"
      and vs = Map.empty and t = ?t and mid = ?mid,
      THEN conjunct2, THEN conjunct2, THEN conjunct2, THEN conjunct1]
    by blast
  with tree_run diamond_second_reach show ?thesis
    by (simp del: runDeps.simps depNames.simps)
qed

end
